theory Spec2Isabelle
  imports Main
begin

section \<open>The layered key-value map (src/helpers/map.ts)\<close>

text \<open>
  A \<open>KVMap<T>\<close> holds a base \<open>Map<string, T>\<close>, a dictionary from numeric layer ids to
  overlay maps \<open>Map<string, T | undefined>\<close>, and the array \<open>keys\<close> of layer ids.
  The JavaScript value \<open>undefined\<close> is \<open>None\<close> of an \<open>option\<close>: a value \<open>T | undefined\<close> is
  a \<open>'v option\<close>, so an overlay is a map \<open>string \<rightharpoonup> 'v option\<close> in which \<open>Some None\<close> is a
  key that is present with the value \<open>undefined\<close>, and \<open>None\<close> is an absent key.
  Layer ids are the integers among the JavaScript numbers; \<open>null | number\<close> is
  \<open>int option\<close>. The functions of the source mutate the map they are given and return it;
  the model returns the updated map.
\<close>

record 'v KVMap =
  optimistic :: "int \<rightharpoonup> (string \<rightharpoonup> 'v option)"
  base :: "string \<rightharpoonup> 'v"
  keys :: "int list"

text \<open>
  \<open>make\<close>: an empty dictionary, an empty base map, no keys. Modelled from the spec:
  \<open>makeDict\<close> (module \<open>./dict\<close>, not among the source files) returns an empty dictionary
  without prototype; section 4.2 of the specification has \<open>make()\<close> return an empty base
  and an empty layer stack.
\<close>

definition make_kv :: "'v KVMap" where
  "make_kv = \<lparr>optimistic = Map.empty, base = Map.empty, keys = []\<rparr>"

text \<open>
  \<open>set\<close>. The test \<open>if (optimisticKey)\<close> is JavaScript truthiness: it fails for \<open>null\<close>
  and for the number \<open>0\<close>, and both take the base branch.
\<close>

definition set_kv :: "'v KVMap \<Rightarrow> string \<Rightarrow> 'v option \<Rightarrow> int option \<Rightarrow> 'v KVMap" where
  "set_kv m key v optimisticKey =
     (case (if optimisticKey = Some 0 then None else optimisticKey) of
        Some ok \<Rightarrow>
          (let m1 = (if optimistic m ok = None
                     then m\<lparr>optimistic := (optimistic m)(ok \<mapsto> Map.empty), keys := ok # keys m\<rparr>
                     else m)
           in (case optimistic m1 ok of
                 Some overlay \<Rightarrow> m1\<lparr>optimistic := (optimistic m1)(ok \<mapsto> overlay(key \<mapsto> v))\<rparr>
               | None \<Rightarrow> m1))
      | None \<Rightarrow>
          (case v of
             None \<Rightarrow> m\<lparr>base := (base m)(key := None)\<rparr>
           | Some x \<Rightarrow> m\<lparr>base := (base m)(key \<mapsto> x)\<rparr>))"

text \<open>
  \<open>clear\<close>: \<open>indexOf\<close> gives the first position of the id in \<open>keys\<close>, or \<open>-1\<close>;
  \<open>splice(index, 1)\<close> removes the element at that position.
\<close>

fun indexOf :: "int list \<Rightarrow> int \<Rightarrow> int" where
  "indexOf [] x = - 1"
| "indexOf (y # ys) x =
     (if y = x then 0 else (let r = indexOf ys x in if r = - 1 then - 1 else r + 1))"

definition splice1 :: "'a list \<Rightarrow> nat \<Rightarrow> 'a list" where
  "splice1 xs i = take i xs @ drop (Suc i) xs"

definition clear :: "'v KVMap \<Rightarrow> int \<Rightarrow> 'v KVMap" where
  "clear m optimisticKey =
     (let index = indexOf (keys m) optimisticKey
      in if index > - 1
         then m\<lparr>optimistic := (optimistic m)(optimisticKey := None),
                keys := splice1 (keys m) (nat index)\<rparr>
         else m)"

text \<open>
  \<open>get\<close>: the loop over \<open>keys\<close>, first to last. Reading \<open>map.optimistic[map.keys[i]]\<close>
  for an id that has no overlay gives \<open>undefined\<close>, and the call \<open>optimistic.has(key)\<close> on
  it throws a TypeError: that is the error branch of the model. The result
  \<open>T | undefined\<close> is a \<open>'v option\<close>.
\<close>

datatype error = TypeError

fun get_loop ::
  "(int \<rightharpoonup> (string \<rightharpoonup> 'v option)) \<Rightarrow> (string \<rightharpoonup> 'v) \<Rightarrow> int list \<Rightarrow> string \<Rightarrow> error + 'v option" where
  "get_loop opt b [] key = Inr (b key)"
| "get_loop opt b (i # rest) key =
     (case opt i of
        None \<Rightarrow> Inl TypeError
      | Some overlay \<Rightarrow>
          (case overlay key of
             Some v \<Rightarrow> Inr v
           | None \<Rightarrow> get_loop opt b rest key))"

definition get :: "'v KVMap \<Rightarrow> string \<Rightarrow> error + 'v option" where
  "get m key = get_loop (optimistic m) (base m) (keys m) key"

subsection \<open>Containers reachable from \<open>make\<close>\<close>

text \<open>
  A sequence of \<open>set\<close> and \<open>clear\<close> calls on one container, and the container that
  \<open>make()\<close> followed by the calls, in order, leaves.
\<close>

datatype 'v call = Set string "'v option" "int option" | Clear int

fun apply_call :: "'v KVMap \<Rightarrow> 'v call \<Rightarrow> 'v KVMap" where
  "apply_call m (Set key v optimisticKey) = set_kv m key v optimisticKey"
| "apply_call m (Clear optimisticKey) = clear m optimisticKey"

definition exec :: "'v call list \<Rightarrow> 'v KVMap" where
  "exec cs = foldl apply_call make_kv cs"

text \<open>
  The invariant of the \<open>KVMap\<close> interface: \<open>keys\<close> lists the ids that have an overlay in
  the dictionary, each once.
\<close>

definition wellformed :: "'v KVMap \<Rightarrow> bool" where
  "wellformed m \<longleftrightarrow> distinct (keys m) \<and> set (keys m) = dom (optimistic m)"

text \<open>
  When each open layer was opened, read off the calls alone (the state is not consulted).
  \<open>opened_rev\<close> takes the calls latest first: a layer is opened by a \<open>set\<close> that names it
  with a layer id that passes the test of \<open>set\<close> while it is not open, stays open under
  further calls of \<open>set\<close>, and is closed by a \<open>clear\<close> of its id. \<open>opened_at cs L\<close> is the
  position in \<open>cs\<close> of the call that opened \<open>L\<close>, or \<open>None\<close> when \<open>L\<close> is not open after
  \<open>cs\<close>.
\<close>

fun opened_rev :: "'v call list \<Rightarrow> int \<Rightarrow> nat option" where
  "opened_rev [] L = None"
| "opened_rev (Clear L' # earlier) L = (if L' = L then None else opened_rev earlier L)"
| "opened_rev (Set key v optimisticKey # earlier) L =
     (if optimisticKey = Some L \<and> L \<noteq> 0
      then (case opened_rev earlier L of
              Some t \<Rightarrow> Some t
            | None \<Rightarrow> Some (length earlier))
      else opened_rev earlier L)"

definition opened_at :: "'v call list \<Rightarrow> int \<Rightarrow> nat option" where
  "opened_at cs L = opened_rev (rev cs) L"

text \<open>
  \<open>newer cs a b\<close>: after the calls \<open>cs\<close> the layers \<open>a\<close> and \<open>b\<close> are both open and \<open>a\<close> was
  opened after \<open>b\<close>.
\<close>

definition newer :: "'v call list \<Rightarrow> int \<Rightarrow> int \<Rightarrow> bool" where
  "newer cs a b =
     (case opened_at cs a of
        None \<Rightarrow> False
      | Some ta \<Rightarrow> (case opened_at cs b of None \<Rightarrow> False | Some tb \<Rightarrow> tb < ta))"

text \<open>
  The invariant that the proofs carry along a sequence of calls: the invariant of the
  interface, the id \<open>0\<close> is never open, \<open>keys\<close> holds the layers that the calls left open,
  every opening time is a position of the sequence, and \<open>keys\<close> is ordered by opening time,
  latest first.
\<close>

definition hist_inv :: "'v call list \<Rightarrow> bool" where
  "hist_inv cs \<longleftrightarrow>
     wellformed (exec cs) \<and> 0 \<notin> set (keys (exec cs)) \<and>
     (\<forall>L. L \<in> set (keys (exec cs)) \<longleftrightarrow> opened_at cs L \<noteq> None) \<and>
     (\<forall>L t. opened_at cs L = Some t \<longrightarrow> t < length cs) \<and>
     sorted_wrt (newer cs) (keys (exec cs))"

section \<open>The store (class \<open>Store\<close>, second part of src/ast/schemaPredicates.ts)\<close>

text \<open>
  An entity is an object without prototype from field keys to field values
  (\<open>undefined | Scalar | Scalar[]\<close>): an absent key is \<open>None\<close>, a key that is present with
  the value \<open>undefined\<close> is \<open>Some Undefined\<close>, the value \<open>null\<close> is \<open>Null\<close>, and \<open>'v\<close> stands for
  the other scalars and the arrays of scalars. A link is \<open>null\<close>, one key or an array of
  keys and \<open>null\<close>s. What \<open>resolveProperty\<close> returns is \<open>null\<close>, a stored value, an entity
  or an array of entities and \<open>null\<close>s.
\<close>

datatype 'v EntityField = Undefined | Null | Scalar 'v

type_synonym 'v Entity = "string \<rightharpoonup> 'v EntityField"

datatype Link = LinkNull | LinkKey string | LinkArray "string option list"

datatype 'v ResolverResult =
    ResultNull
  | ResultScalar 'v
  | ResultEntity "'v Entity"
  | ResultArray "'v Entity option list"

text \<open>
  The store owns the two maps. Its tables \<open>resolvers\<close> and \<open>updates\<close> are not read by the
  functions below; they live in the extension part of the record, which every function
  leaves as it is. The functions below read entities and replace whole entries of the two
  maps; none of them writes into an entity that the store holds, so entities are values
  here. (\<open>findOrCreate\<close>, which hands out a reference into the store for later writes,
  \<open>updateQuery\<close> and \<open>writeFragment\<close> are not modelled.)
\<close>

record 'v Store =
  records :: "string \<rightharpoonup> 'v Entity"
  links :: "string \<rightharpoonup> Link"

text \<open>
  The functions \<open>keyOfEntity\<close>, \<open>keyOfField\<close> and \<open>joinKeys\<close> are imported from the helpers
  module, which is not among the source files: they are parameters of the model.
  \<open>keyOfEntity\<close> returns a key or \<open>null\<close>; the arguments of a field are an object, \<open>null\<close>
  or \<open>undefined\<close> (\<open>'a option\<close>, and \<open>args || null\<close> sends both \<open>null\<close> and \<open>undefined\<close> to
  \<open>null\<close>).
\<close>

record ('v, 'a) Helpers =
  keyOfEntity :: "'v Entity \<Rightarrow> string option"
  keyOfField :: "string \<Rightarrow> 'a option \<Rightarrow> string"
  joinKeys :: "string \<Rightarrow> string \<Rightarrow> string"

definition find_entity :: "('v, 'z) Store_scheme \<Rightarrow> string \<Rightarrow> 'v Entity option" where
  "find_entity s key = (case records s key of Some entity \<Rightarrow> Some entity | None \<Rightarrow> None)"

definition readLink :: "('v, 'z) Store_scheme \<Rightarrow> string \<Rightarrow> Link option" where
  "readLink s key = links s key"

definition remove_entity :: "('v, 'z) Store_scheme \<Rightarrow> string \<Rightarrow> ('v, 'z) Store_scheme" where
  "remove_entity s key = s\<lparr>records := (records s)(key := None)\<rparr>"

definition setLink :: "('v, 'z) Store_scheme \<Rightarrow> string \<Rightarrow> Link \<Rightarrow> ('v, 'z) Store_scheme" where
  "setLink s key link = s\<lparr>links := (links s)(key \<mapsto> link)\<rparr>"

definition removeLink :: "('v, 'z) Store_scheme \<Rightarrow> string \<Rightarrow> ('v, 'z) Store_scheme" where
  "removeLink s key = s\<lparr>links := (links s)(key := None)\<rparr>"

definition resolveEntity ::
  "('v, 'a) Helpers \<Rightarrow> ('v, 'z) Store_scheme \<Rightarrow> 'v Entity \<Rightarrow> 'v Entity option" where
  "resolveEntity h s entity =
     (case keyOfEntity h entity of Some key \<Rightarrow> find_entity s key | None \<Rightarrow> None)"

text \<open>
  \<open>resolveProperty\<close>. \<open>parent[fieldKey]\<close> is \<open>undefined\<close> for an absent key too, and
  \<open>fieldKey in parent\<close> tells the two apart. The test \<open>link ? ... : null\<close> on a link that
  is not an array is truthiness: it fails for \<open>undefined\<close>, \<open>null\<close> and the empty string.
\<close>

definition resolveProperty ::
  "('v, 'a) Helpers \<Rightarrow> ('v, 'z) Store_scheme \<Rightarrow> 'v Entity \<Rightarrow> string \<Rightarrow> 'a option \<Rightarrow> 'v ResolverResult" where
  "resolveProperty h s parent field args =
     (let fieldKey = keyOfField h field args;
          fieldValue = (case parent fieldKey of Some x \<Rightarrow> x | None \<Rightarrow> Undefined)
      in if fieldValue = Undefined \<and> fieldKey \<in> dom parent then
           (case keyOfEntity h parent of
              None \<Rightarrow> ResultNull
            | Some entityKey \<Rightarrow>
                (case readLink s (joinKeys h entityKey fieldKey) of
                   Some (LinkArray link) \<Rightarrow>
                     ResultArray (map (\<lambda>key. case key of Some k \<Rightarrow> find_entity s k | None \<Rightarrow> None) link)
                 | Some (LinkKey link) \<Rightarrow>
                     (if link \<noteq> [] then
                        (case find_entity s link of Some entity \<Rightarrow> ResultEntity entity | None \<Rightarrow> ResultNull)
                      else ResultNull)
                 | Some LinkNull \<Rightarrow> ResultNull
                 | None \<Rightarrow> ResultNull))
         else if fieldValue = Undefined then ResultNull
         else (case fieldValue of
                 Scalar x \<Rightarrow> ResultScalar x
               | Null \<Rightarrow> ResultNull
               | Undefined \<Rightarrow> ResultNull))"

text \<open>
  Modelled from the spec: the helpers module (\<open>keyOfEntity\<close>, \<open>keyOfField\<close>, \<open>joinKeys\<close>) is
  not among the source files. This instance follows section 4.1 of the specification and
  serves the concrete examples only; the theorems hold for every choice of the three
  functions. Scalars are strings here, the arguments of a field are given in serialised
  form, and the separator of \<open>joinKeys\<close> is a dot.
\<close>

definition example_helpers :: "(string, string) Helpers" where
  "example_helpers =
     \<lparr>keyOfEntity = (\<lambda>obj.
        case obj ''__typename'' of
          Some (Scalar typename) \<Rightarrow>
            (if typename = [] then None
             else (case obj ''id'' of
                     Some (Scalar i) \<Rightarrow> Some (typename @ '':'' @ i)
                   | _ \<Rightarrow> (case obj ''_id'' of
                            Some (Scalar i) \<Rightarrow> Some (typename @ '':'' @ i)
                          | _ \<Rightarrow> None)))
        | _ \<Rightarrow> None),
      keyOfField = (\<lambda>name args. case args of None \<Rightarrow> name | Some a \<Rightarrow> name @ ''('' @ a @ '')''),
      joinKeys = (\<lambda>a b. a @ ''.'' @ b)\<rparr>"

section \<open>Schema predicates (class \<open>SchemaPredicates\<close>, src/ast/schemaPredicates.ts)\<close>

text \<open>
  The members of the enumeration \<open>Kind\<close> of the graphql package that the class compares
  with are strings.
\<close>

definition OBJECT_TYPE_DEFINITION :: string where
  "OBJECT_TYPE_DEFINITION = ''ObjectTypeDefinition''"

definition INTERFACE_TYPE_DEFINITION :: string where
  "INTERFACE_TYPE_DEFINITION = ''InterfaceTypeDefinition''"

definition UNION_TYPE_DEFINITION :: string where
  "UNION_TYPE_DEFINITION = ''UnionTypeDefinition''"

definition NON_NULL_TYPE :: string where
  "NON_NULL_TYPE = ''NonNullType''"

text \<open>
  The parsed schema document, as far as the class reads it: of a definition node its
  \<open>kind\<close>, its \<open>name.value\<close> and its optional \<open>fields\<close> (\<open>node_fields\<close>); of a field definition its
  \<open>name.value\<close> and its \<open>type.kind\<close>.
\<close>

record FieldDefinitionNode =
  field_name_value :: string
  field_type_kind :: string

record DefinitionNode =
  kind :: string
  name_value :: string
  node_fields :: "FieldDefinitionNode list option"

record DocumentNode =
  definitions :: "DefinitionNode list"

text \<open>
  The introspected schema the constructor is given, as far as it reads \<open>schema.__schema\<close>:
  of each type its \<open>kind\<close>, its \<open>name\<close> and the names of its \<open>possibleTypes\<close> (\<open>None\<close> when the
  type has none), and the three root operation types, each an object with a \<open>name\<close>
  (\<open>Some name\<close>) or \<open>null\<close> or missing (\<open>None\<close>).
\<close>

record IntrospectionType =
  type_kind :: string
  type_name :: string
  possibleTypes :: "string list option"

record IntrospectionSchema =
  types :: "IntrospectionType list"
  queryType :: "string option"
  mutationType :: "string option"
  subscriptionType :: "string option"

text \<open>
  The field \<open>rootFields\<close> is declared \<open>{ query: string; mutation: string; subscription:
  string }\<close>. The constructor stores \<open>t && t.name\<close> in it, which is \<open>null\<close> or
  \<open>undefined\<close> (\<open>None\<close>) when the schema has no such type \<open>t\<close>.
\<close>

record RootFields =
  query :: "string option"
  mutation :: "string option"
  subscription :: "string option"

datatype RootField = RootField_query | RootField_mutation | RootField_subscription

record SchemaPredicates =
  schema :: "DocumentNode option"
  fragTypes :: "(string \<rightharpoonup> string list) option"
  rootFields :: RootFields

text \<open>
  The loop \<open>schema.__schema.types.forEach\<close> of the constructor: calling \<open>map\<close> on the
  \<open>possibleTypes\<close> of a type that has none throws.
\<close>

fun collect_fragTypes ::
  "IntrospectionType list \<Rightarrow> (string \<rightharpoonup> string list) \<Rightarrow> error + (string \<rightharpoonup> string list)" where
  "collect_fragTypes [] acc = Inr acc"
| "collect_fragTypes (t # ts) acc =
     (if type_kind t = UNION_TYPE_DEFINITION \<or> type_kind t = INTERFACE_TYPE_DEFINITION then
        (case possibleTypes t of
           None \<Rightarrow> Inl TypeError
         | Some names \<Rightarrow> collect_fragTypes ts (acc(type_name t \<mapsto> names)))
      else collect_fragTypes ts acc)"

text \<open>
  The constructor. \<open>parseSchema\<close> runs three functions of the graphql package, which may
  throw: it is a parameter.
\<close>

definition new_SchemaPredicates ::
  "(IntrospectionSchema \<Rightarrow> error + DocumentNode) \<Rightarrow> IntrospectionSchema option \<Rightarrow> error + SchemaPredicates" where
  "new_SchemaPredicates parseSchema schema_arg =
     (case schema_arg of
        Some sch \<Rightarrow>
          (case parseSchema sch of
             Inl e \<Rightarrow> Inl e
           | Inr doc \<Rightarrow>
               (case collect_fragTypes (types sch) Map.empty of
                  Inl e \<Rightarrow> Inl e
                | Inr ft \<Rightarrow>
                    Inr \<lparr>schema = Some doc, fragTypes = Some ft,
                         rootFields = \<lparr>query = queryType sch, mutation = mutationType sch,
                                       subscription = subscriptionType sch\<rparr>\<rparr>))
      | None \<Rightarrow>
          Inr \<lparr>schema = None, fragTypes = None,
               rootFields = \<lparr>query = Some ''Query'', mutation = Some ''Mutation'',
                             subscription = Some ''Subscription''\<rparr>\<rparr>)"

definition getRootKey :: "SchemaPredicates \<Rightarrow> RootField \<Rightarrow> string option" where
  "getRootKey sp name =
     (case name of
        RootField_query \<Rightarrow> query (rootFields sp)
      | RootField_mutation \<Rightarrow> mutation (rootFields sp)
      | RootField_subscription \<Rightarrow> subscription (rootFields sp))"

definition isFieldNullable :: "SchemaPredicates \<Rightarrow> string \<Rightarrow> string \<Rightarrow> bool" where
  "isFieldNullable sp typename fieldName =
     (case schema sp of
        None \<Rightarrow> True
      | Some doc \<Rightarrow>
          (case find (\<lambda>node. kind node = OBJECT_TYPE_DEFINITION \<and> name_value node = typename)
                  (definitions doc) of
             None \<Rightarrow> True
           | Some objectTypeNode \<Rightarrow>
               (case find (\<lambda>node. field_name_value node = fieldName)
                       (case node_fields objectTypeNode of Some fs \<Rightarrow> fs | None \<Rightarrow> []) of
                  None \<Rightarrow> True
                | Some field \<Rightarrow> field_type_kind field \<noteq> NON_NULL_TYPE)))"

text \<open>
  What the schema document says about a type and a field, independently of
  \<open>isFieldNullable\<close>. \<open>defines_non_null\<close> follows the words of the specification: the
  schema defines \<open>typename\<close> with \<open>fieldName\<close> as a non-null type when some definition of the
  document named \<open>typename\<close>, of whatever kind (object type, interface, ...), has a field
  \<open>fieldName\<close> whose type is a non-null type.
\<close>

definition fields_of :: "DefinitionNode \<Rightarrow> FieldDefinitionNode list" where
  "fields_of node = (case node_fields node of Some fs \<Rightarrow> fs | None \<Rightarrow> [])"

definition defines_non_null :: "DocumentNode \<Rightarrow> string \<Rightarrow> string \<Rightarrow> bool" where
  "defines_non_null doc typename fieldName \<longleftrightarrow>
     (\<exists>node \<in> set (definitions doc).
        name_value node = typename \<and>
        (\<exists>fld \<in> set (fields_of node).
           field_name_value fld = fieldName \<and> field_type_kind fld = NON_NULL_TYPE))"

text \<open>
  The same for object types alone: the document defines an object type named \<open>typename\<close>;
  it defines one that has a field \<open>fieldName\<close>; it defines one that has the field
  \<open>fieldName\<close> with a non-null type.
\<close>

definition object_type_found :: "DocumentNode \<Rightarrow> string \<Rightarrow> bool" where
  "object_type_found doc typename \<longleftrightarrow>
     (\<exists>node \<in> set (definitions doc).
        kind node = OBJECT_TYPE_DEFINITION \<and> name_value node = typename)"

definition object_type_field_found :: "DocumentNode \<Rightarrow> string \<Rightarrow> string \<Rightarrow> bool" where
  "object_type_field_found doc typename fieldName \<longleftrightarrow>
     (\<exists>node \<in> set (definitions doc).
        kind node = OBJECT_TYPE_DEFINITION \<and> name_value node = typename \<and>
        (\<exists>fld \<in> set (fields_of node). field_name_value fld = fieldName))"

definition object_type_defines_non_null :: "DocumentNode \<Rightarrow> string \<Rightarrow> string \<Rightarrow> bool" where
  "object_type_defines_non_null doc typename fieldName \<longleftrightarrow>
     (\<exists>node \<in> set (definitions doc).
        kind node = OBJECT_TYPE_DEFINITION \<and> name_value node = typename \<and>
        (\<exists>fld \<in> set (fields_of node).
           field_name_value fld = fieldName \<and> field_type_kind fld = NON_NULL_TYPE))"

text \<open>
  In a document printed from a schema no two object types share a name and no two fields
  of an object type do.
\<close>

definition unique_names :: "DocumentNode \<Rightarrow> bool" where
  "unique_names doc \<longleftrightarrow>
     distinct (map name_value (filter (\<lambda>node. kind node = OBJECT_TYPE_DEFINITION) (definitions doc))) \<and>
     (\<forall>node \<in> set (definitions doc).
        kind node = OBJECT_TYPE_DEFINITION \<longrightarrow> distinct (map field_name_value (fields_of node)))"

text \<open>For the proofs: the definitions that the first search of \<open>isFieldNullable\<close> accepts.\<close>

definition object_types :: "DocumentNode \<Rightarrow> string \<Rightarrow> DefinitionNode list" where
  "object_types doc typename =
     filter (\<lambda>node. kind node = OBJECT_TYPE_DEFINITION \<and> name_value node = typename) (definitions doc)"

section \<open>Properties of the layered key-value map\<close>

lemma set_kv_layer:
  "L \<noteq> 0 \<Longrightarrow> set_kv m key v (Some L) =
     (case optimistic m L of
        None \<Rightarrow> m\<lparr>optimistic := (optimistic m)(L \<mapsto> [key \<mapsto> v]), keys := L # keys m\<rparr>
      | Some ov \<Rightarrow> m\<lparr>optimistic := (optimistic m)(L \<mapsto> ov(key \<mapsto> v))\<rparr>)"
  by (simp add: set_kv_def Let_def split: option.splits)

lemma set_kv_null:
  "set_kv m key v None =
     (case v of None \<Rightarrow> m\<lparr>base := (base m)(key := None)\<rparr> | Some x \<Rightarrow> m\<lparr>base := (base m)(key \<mapsto> x)\<rparr>)"
  by (simp add: set_kv_def)

lemma set_kv_zero: "set_kv m key v (Some 0) = set_kv m key v None"
  by (simp add: set_kv_def)

lemma indexOf_notin: "x \<notin> set xs \<Longrightarrow> indexOf xs x = - 1"
  by (induction xs) (auto simp: Let_def)

lemma indexOf_in: "x \<in> set xs \<Longrightarrow> 0 \<le> indexOf xs x"
  by (induction xs) (auto simp: Let_def)

lemma splice1_indexOf: "x \<in> set xs \<Longrightarrow> splice1 xs (nat (indexOf xs x)) = remove1 x xs"
proof (induction xs)
  case Nil
  then show ?case by simp
next
  case (Cons y ys)
  show ?case
  proof (cases "y = x")
    case True
    then show ?thesis by (simp add: splice1_def)
  next
    case False
    with Cons.prems have in_ys: "x \<in> set ys" by simp
    then have nonneg: "0 \<le> indexOf ys x" by (rule indexOf_in)
    then have "nat (indexOf ys x + 1) = Suc (nat (indexOf ys x))" by simp
    with False nonneg Cons.IH [OF in_ys] show ?thesis
      by (simp add: splice1_def Let_def)
  qed
qed

lemma clear_open: "L \<in> set (keys m) \<Longrightarrow>
    clear m L = m\<lparr>optimistic := (optimistic m)(L := None), keys := remove1 L (keys m)\<rparr>"
  using indexOf_in [of L "keys m"] by (simp add: clear_def Let_def splice1_indexOf)

lemma clear_closed: "L \<notin> set (keys m) \<Longrightarrow> clear m L = m"
  by (simp add: clear_def Let_def indexOf_notin)

lemma filter_neq_absent: "x \<notin> set xs \<Longrightarrow> filter (\<lambda>y. y \<noteq> x) xs = xs"
  by (induction xs) auto

lemma remove1_distinct_filter: "distinct xs \<Longrightarrow> remove1 x xs = filter (\<lambda>y. y \<noteq> x) xs"
  by (induction xs) (auto simp: filter_neq_absent)

lemma get_loop_absent:
  "\<forall>L\<in>set ks. \<exists>ov. opt L = Some ov \<and> ov key = None \<Longrightarrow> get_loop opt b ks key = Inr (b key)"
  by (induction ks) auto

lemma get_loop_first:
  "i < length ks \<Longrightarrow> opt (ks ! i) = Some ov \<Longrightarrow> ov key = Some v \<Longrightarrow>
   \<forall>j<i. \<exists>ov'. opt (ks ! j) = Some ov' \<and> ov' key = None \<Longrightarrow>
   get_loop opt b ks key = Inr v"
proof (induction ks arbitrary: i)
  case Nil
  then show ?case by simp
next
  case (Cons k ks)
  show ?case
  proof (cases i)
    case 0
    with Cons.prems show ?thesis by simp
  next
    case (Suc n)
    from Cons.prems(4) Suc have "\<exists>ov'. opt k = Some ov' \<and> ov' key = None" by auto
    moreover from Cons.prems Suc have "get_loop opt b ks key = Inr v"
      by (intro Cons.IH [of n]) auto
    ultimately show ?thesis by auto
  qed
qed

lemma get_loop_total:
  "set ks \<subseteq> dom opt \<Longrightarrow> \<exists>r. get_loop opt b ks key = Inr r"
  by (induction ks) (auto split: option.splits)

lemmas kv_eval = exec_def make_kv_def set_kv_def clear_def get_def splice1_def Let_def

lemma exec_Nil: "exec [] = make_kv"
  by (simp add: exec_def)

lemma exec_snoc: "exec (cs @ [c]) = apply_call (exec cs) c"
  by (simp add: exec_def)

lemma opened_at_Nil: "opened_at [] L = None"
  by (simp add: opened_at_def)

lemma opened_at_snoc_Clear:
  "opened_at (cs @ [Clear L']) L = (if L' = L then None else opened_at cs L)"
  by (simp add: opened_at_def)

lemma opened_at_snoc_Set:
  "opened_at (cs @ [Set key v ok]) L =
     (if ok = Some L \<and> L \<noteq> 0
      then (case opened_at cs L of Some t \<Rightarrow> Some t | None \<Rightarrow> Some (length cs))
      else opened_at cs L)"
  by (simp add: opened_at_def split: option.splits)

lemma newer_iff:
  "newer cs a b \<longleftrightarrow> (\<exists>ta tb. opened_at cs a = Some ta \<and> opened_at cs b = Some tb \<and> tb < ta)"
  by (simp add: newer_def split: option.splits)

lemma sorted_wrt_rel_cong:
  "sorted_wrt P xs \<Longrightarrow> (\<And>x y. x \<in> set xs \<Longrightarrow> y \<in> set xs \<Longrightarrow> P x y \<Longrightarrow> Q x y) \<Longrightarrow> sorted_wrt Q xs"
  by (induction xs) auto

lemma hist_inv_Nil: "hist_inv []"
  by (simp add: hist_inv_def exec_Nil make_kv_def wellformed_def opened_at_Nil)

lemma hist_inv_base:
  assumes "hist_inv cs" and "ok = None \<or> ok = Some 0"
  shows "hist_inv (cs @ [Set key v ok])"
proof -
  from assms(2) have ex: "exec (cs @ [Set key v ok]) = set_kv (exec cs) key v None"
    by (auto simp: exec_snoc set_kv_zero)
  have k: "keys (set_kv (exec cs) key v None) = keys (exec cs)"
    and o: "optimistic (set_kv (exec cs) key v None) = optimistic (exec cs)"
    by (simp_all add: set_kv_null split: option.splits)
  from assms(2) have oa: "opened_at (cs @ [Set key v ok]) = opened_at cs"
    by (auto simp: opened_at_snoc_Set fun_eq_iff)
  have nw: "newer (cs @ [Set key v ok]) = newer cs"
    by (simp add: newer_iff fun_eq_iff oa)
  from assms(1) show ?thesis
    unfolding hist_inv_def ex oa nw wellformed_def k o
    by (auto simp: less_SucI)
qed

lemma hist_inv_merge:
  assumes "hist_inv cs" and "L \<noteq> 0" and "optimistic (exec cs) L = Some ov"
  shows "hist_inv (cs @ [Set key v (Some L)])"
proof -
  from assms(2,3) have ex: "exec (cs @ [Set key v (Some L)]) =
      (exec cs)\<lparr>optimistic := (optimistic (exec cs))(L \<mapsto> ov(key \<mapsto> v))\<rparr>"
    by (simp add: exec_snoc set_kv_layer)
  from assms(1,3) have "L \<in> set (keys (exec cs))"
    by (auto simp: hist_inv_def wellformed_def)
  with assms(1) obtain t where t: "opened_at cs L = Some t"
    by (auto simp: hist_inv_def)
  with assms(2) have oa: "opened_at (cs @ [Set key v (Some L)]) = opened_at cs"
    by (auto simp: opened_at_snoc_Set fun_eq_iff)
  have nw: "newer (cs @ [Set key v (Some L)]) = newer cs"
    by (simp add: newer_iff fun_eq_iff oa)
  from assms(1,3) show ?thesis
    unfolding hist_inv_def ex oa nw wellformed_def
    by (auto simp: less_SucI)
qed

lemma hist_inv_open:
  assumes "hist_inv cs" and "L \<noteq> 0" and "optimistic (exec cs) L = None"
  shows "hist_inv (cs @ [Set key v (Some L)])"
proof -
  let ?cs' = "cs @ [Set key v (Some L)]"
  from assms(2,3) have ex: "exec ?cs' =
      (exec cs)\<lparr>optimistic := (optimistic (exec cs))(L \<mapsto> [key \<mapsto> v]), keys := L # keys (exec cs)\<rparr>"
    by (simp add: exec_snoc set_kv_layer)
  from assms(1,3) have notin: "L \<notin> set (keys (exec cs))"
    by (auto simp: hist_inv_def wellformed_def)
  with assms(1) have closed: "opened_at cs L = None"
    by (auto simp: hist_inv_def)
  from assms(2) closed have oaL: "opened_at ?cs' L = Some (length cs)"
    by (simp add: opened_at_snoc_Set)
  have oa: "opened_at ?cs' L' = opened_at cs L'" if "L' \<noteq> L" for L'
    using that by (auto simp: opened_at_snoc_Set)
  from assms(1) have bound: "\<And>L' t. opened_at cs L' = Some t \<Longrightarrow> t < length cs"
    by (auto simp: hist_inv_def)
  have wf: "wellformed (exec ?cs')"
    using assms(1) notin unfolding ex hist_inv_def wellformed_def by auto
  have zero: "0 \<notin> set (keys (exec ?cs'))"
    using assms(1,2) unfolding ex hist_inv_def by auto
  have dom: "\<forall>L'. L' \<in> set (keys (exec ?cs')) \<longleftrightarrow> opened_at ?cs' L' \<noteq> None"
  proof
    fix L'
    show "L' \<in> set (keys (exec ?cs')) \<longleftrightarrow> opened_at ?cs' L' \<noteq> None"
      using assms(1) oaL oa [of L'] unfolding ex hist_inv_def by (cases "L' = L") auto
  qed
  have bnd: "\<forall>L' t. opened_at ?cs' L' = Some t \<longrightarrow> t < length ?cs'"
  proof (intro allI impI)
    fix L' t
    assume "opened_at ?cs' L' = Some t"
    then show "t < length ?cs'"
      using oaL oa [of L'] bound [of L' t] by (cases "L' = L") auto
  qed
  have head: "\<forall>y\<in>set (keys (exec cs)). newer ?cs' L y"
  proof
    fix y
    assume y: "y \<in> set (keys (exec cs))"
    with notin have "y \<noteq> L" by auto
    moreover from y assms(1) obtain t where "opened_at cs y = Some t"
      by (auto simp: hist_inv_def)
    ultimately show "newer ?cs' L y"
      using oaL oa [of y] bound [of y t] by (auto simp: newer_iff)
  qed
  from assms(1) have "sorted_wrt (newer cs) (keys (exec cs))"
    by (simp add: hist_inv_def)
  then have tail: "sorted_wrt (newer ?cs') (keys (exec cs))"
  proof (rule sorted_wrt_rel_cong)
    fix x y
    assume "x \<in> set (keys (exec cs))" "y \<in> set (keys (exec cs))" "newer cs x y"
    moreover from this notin have "x \<noteq> L" "y \<noteq> L" by auto
    ultimately show "newer ?cs' x y"
      by (simp add: newer_iff oa)
  qed
  have srt: "sorted_wrt (newer ?cs') (keys (exec ?cs'))"
    using head tail unfolding ex by simp
  from wf zero dom bnd srt show ?thesis
    unfolding hist_inv_def by blast
qed

lemma hist_inv_clear:
  assumes "hist_inv cs"
  shows "hist_inv (cs @ [Clear L])"
proof -
  let ?cs' = "cs @ [Clear L]"
  have oaL: "opened_at ?cs' L = None"
    by (simp add: opened_at_snoc_Clear)
  have oa: "opened_at ?cs' L' = opened_at cs L'" if "L' \<noteq> L" for L'
    using that by (auto simp: opened_at_snoc_Clear)
  have bnd: "\<forall>L' t. opened_at ?cs' L' = Some t \<longrightarrow> t < length ?cs'"
  proof (intro allI impI)
    fix L' t
    assume "opened_at ?cs' L' = Some t"
    then show "t < length ?cs'"
      using oaL oa [of L'] assms by (cases "L' = L") (auto simp: hist_inv_def less_SucI)
  qed
  from assms have d: "distinct (keys (exec cs))"
    by (simp add: hist_inv_def wellformed_def)
  have kf: "keys (exec ?cs') = filter (\<lambda>y. y \<noteq> L) (keys (exec cs))"
    by (cases "L \<in> set (keys (exec cs))")
       (simp_all add: exec_snoc clear_open clear_closed remove1_distinct_filter [OF d] filter_neq_absent)
  have op: "optimistic (exec ?cs') = (optimistic (exec cs))(L := None)"
  proof (cases "L \<in> set (keys (exec cs))")
    case True
    then show ?thesis by (simp add: exec_snoc clear_open)
  next
    case False
    with assms have "optimistic (exec cs) L = None"
      by (auto simp: hist_inv_def wellformed_def)
    with False show ?thesis by (simp add: exec_snoc clear_closed fun_eq_iff)
  qed
  have wf: "wellformed (exec ?cs')"
    using assms unfolding hist_inv_def wellformed_def kf op by auto
  have zero: "0 \<notin> set (keys (exec ?cs'))"
    using assms unfolding kf hist_inv_def by auto
  have dom: "\<forall>L'. L' \<in> set (keys (exec ?cs')) \<longleftrightarrow> opened_at ?cs' L' \<noteq> None"
  proof
    fix L'
    show "L' \<in> set (keys (exec ?cs')) \<longleftrightarrow> opened_at ?cs' L' \<noteq> None"
      using assms oaL oa [of L'] unfolding kf hist_inv_def by (cases "L' = L") auto
  qed
  from assms have "sorted_wrt (newer cs) (keys (exec cs))"
    by (simp add: hist_inv_def)
  then have "sorted_wrt (newer cs) (keys (exec ?cs'))"
    unfolding kf by (rule sorted_wrt_filter)
  then have srt: "sorted_wrt (newer ?cs') (keys (exec ?cs'))"
  proof (rule sorted_wrt_rel_cong)
    fix x y
    assume "x \<in> set (keys (exec ?cs'))" "y \<in> set (keys (exec ?cs'))" "newer cs x y"
    moreover from this have "x \<noteq> L" "y \<noteq> L" unfolding kf by auto
    ultimately show "newer ?cs' x y"
      by (simp add: newer_iff oa)
  qed
  from wf zero dom bnd srt show ?thesis
    unfolding hist_inv_def by blast
qed

lemma hist_inv_exec: "hist_inv cs"
proof (induction cs rule: rev_induct)
  case Nil
  show ?case by (rule hist_inv_Nil)
next
  case (snoc c cs)
  show ?case
  proof (cases c)
    case (Clear L)
    with snoc show ?thesis by (simp add: hist_inv_clear)
  next
    case (Set key v ok)
    show ?thesis
    proof (cases "ok = None \<or> ok = Some 0")
      case True
      with snoc Set show ?thesis by (simp add: hist_inv_base)
    next
      case False
      then obtain L where L: "ok = Some L" "L \<noteq> 0" by (cases ok) auto
      show ?thesis
      proof (cases "optimistic (exec cs) L")
        case None
        with snoc Set L show ?thesis by (simp add: hist_inv_open)
      next
        case (Some ov)
        with snoc Set L show ?thesis by (simp add: hist_inv_merge)
      qed
    qed
  qed
qed

lemma exec_wellformed: "wellformed (exec cs)"
  using hist_inv_exec [of cs] by (simp add: hist_inv_def)

lemma exec_zero_closed: "optimistic (exec cs) 0 = None"
  using hist_inv_exec [of cs] by (auto simp: hist_inv_def wellformed_def)

lemma exec_sorted: "sorted_wrt (newer cs) (keys (exec cs))"
  using hist_inv_exec [of cs] by (simp add: hist_inv_def)

lemma exec_open_iff: "L \<in> dom (optimistic (exec cs)) \<longleftrightarrow> opened_at cs L \<noteq> None"
  using hist_inv_exec [of cs] by (auto simp: hist_inv_def wellformed_def)

lemma get_first:
  assumes "wellformed m" and "i < length (keys m)" and "optimistic m (keys m ! i) = Some ov"
    and "ov key = Some v"
    and "\<forall>j<i. \<forall>ov'. optimistic m (keys m ! j) = Some ov' \<longrightarrow> ov' key = None"
  shows "get m key = Inr v"
proof -
  have "\<forall>j<i. \<exists>ov'. optimistic m (keys m ! j) = Some ov' \<and> ov' key = None"
  proof (intro allI impI)
    fix j
    assume "j < i"
    with assms(2) have "keys m ! j \<in> set (keys m)" by simp
    with assms(1) obtain ov' where "optimistic m (keys m ! j) = Some ov'"
      by (auto simp: wellformed_def)
    with assms(5) \<open>j < i\<close> show "\<exists>ov'. optimistic m (keys m ! j) = Some ov' \<and> ov' key = None"
      by auto
  qed
  with assms(2,3,4) show ?thesis
    unfolding get_def by (rule get_loop_first)
qed

lemma get_base:
  assumes "wellformed m" and "\<forall>L ov. optimistic m L = Some ov \<longrightarrow> ov key = None"
  shows "get m key = Inr (base m key)"
proof -
  have "\<forall>L\<in>set (keys m). \<exists>ov. optimistic m L = Some ov \<and> ov key = None"
  proof
    fix L
    assume "L \<in> set (keys m)"
    with assms(1) obtain ov where "optimistic m L = Some ov"
      by (auto simp: wellformed_def)
    with assms(2) show "\<exists>ov. optimistic m L = Some ov \<and> ov key = None" by auto
  qed
  then show ?thesis
    unfolding get_def by (rule get_loop_absent)
qed

lemma get_most_recent:
  assumes "opened_at cs L = Some t" and "optimistic (exec cs) L = Some ov" and "ov key = Some v"
    and "\<forall>L' t' ov'. opened_at cs L' = Some t' \<longrightarrow> t < t' \<longrightarrow>
           optimistic (exec cs) L' = Some ov' \<longrightarrow> ov' key = None"
  shows "get (exec cs) key = Inr v"
proof -
  let ?ks = "keys (exec cs)"
  from assms(2) have "L \<in> set ?ks"
    using exec_wellformed [of cs] by (auto simp: wellformed_def)
  then obtain i where i: "i < length ?ks" "?ks ! i = L"
    by (auto simp: in_set_conv_nth)
  have "\<forall>j<i. \<forall>ov'. optimistic (exec cs) (?ks ! j) = Some ov' \<longrightarrow> ov' key = None"
  proof (intro allI impI)
    fix j ov'
    assume j: "j < i" and ov': "optimistic (exec cs) (?ks ! j) = Some ov'"
    from exec_sorted [of cs] j i have "newer cs (?ks ! j) L"
      by (auto simp: sorted_wrt_iff_nth_less)
    with assms(1) obtain t' where "opened_at cs (?ks ! j) = Some t'" "t < t'"
      by (auto simp: newer_iff)
    with assms(4) ov' show "ov' key = None" by blast
  qed
  with exec_wellformed [of cs] i assms(2,3) show ?thesis
    by (intro get_first [of "exec cs" i ov]) auto
qed

text \<open>
  Claim C2. In a container that satisfies the invariant of the interface, \<open>get\<close> returns the
  value held by the first overlay in the order of \<open>keys\<close> that has the key present, also
  when that value is \<open>undefined\<close> (the result \<open>Inr None\<close>: the tombstone is returned and
  nothing older is consulted), and it returns what base holds for the key (\<open>undefined\<close>
  when base has no such key) when no overlay has the key present. In a container reached
  from \<open>make()\<close> by calls of \<open>set\<close> and \<open>clear\<close>, that first overlay is the one opened most
  recently among the open overlays that have the key present: if the overlay of \<open>L\<close> has
  the key and every overlay opened after \<open>L\<close> lacks it, \<open>get\<close> returns the value in the
  overlay of \<open>L\<close>.
\<close>

theorem get_newest_overlay:
  "(wellformed m \<longrightarrow>
      (\<forall>i ov v. i < length (keys m) \<longrightarrow> optimistic m (keys m ! i) = Some ov \<longrightarrow> ov key = Some v \<longrightarrow>
         (\<forall>j<i. \<forall>ov'. optimistic m (keys m ! j) = Some ov' \<longrightarrow> ov' key = None) \<longrightarrow>
         get m key = Inr v) \<and>
      ((\<forall>L ov. optimistic m L = Some ov \<longrightarrow> ov key = None) \<longrightarrow> get m key = Inr (base m key))) \<and>
   (\<forall>L t ov v. opened_at cs L = Some t \<longrightarrow> optimistic (exec cs) L = Some ov \<longrightarrow> ov key = Some v \<longrightarrow>
      (\<forall>L' t' ov'. opened_at cs L' = Some t' \<longrightarrow> t < t' \<longrightarrow>
         optimistic (exec cs) L' = Some ov' \<longrightarrow> ov' key = None) \<longrightarrow>
      get (exec cs) key = Inr v)"
proof (intro conjI impI allI)
  fix i ov v
  assume "wellformed m" "i < length (keys m)" "optimistic m (keys m ! i) = Some ov" "ov key = Some v"
    "\<forall>j<i. \<forall>ov'. optimistic m (keys m ! j) = Some ov' \<longrightarrow> ov' key = None"
  then show "get m key = Inr v" by (rule get_first)
next
  assume "wellformed m" "\<forall>L ov. optimistic m L = Some ov \<longrightarrow> ov key = None"
  then show "get m key = Inr (base m key)" by (rule get_base)
next
  fix L t ov v
  assume "opened_at cs L = Some t" "optimistic (exec cs) L = Some ov" "ov key = Some v"
    "\<forall>L' t' ov'. opened_at cs L' = Some t' \<longrightarrow> t < t' \<longrightarrow>
       optimistic (exec cs) L' = Some ov' \<longrightarrow> ov' key = None"
  then show "get (exec cs) key = Inr v" by (rule get_most_recent)
qed

theorem get_newest_overlay_witness:
  "wellformed \<lparr>optimistic = [1 \<mapsto> [''a'' \<mapsto> Some 5], 2 \<mapsto> [''a'' \<mapsto> None]],
        base = [''a'' \<mapsto> 3::nat, ''b'' \<mapsto> 7], keys = [2, 1]\<rparr> \<and>
   get \<lparr>optimistic = [1 \<mapsto> [''a'' \<mapsto> Some 5], 2 \<mapsto> [''a'' \<mapsto> None]],
        base = [''a'' \<mapsto> 3::nat, ''b'' \<mapsto> 7], keys = [2, 1]\<rparr> ''a'' = Inr None \<and>
   get \<lparr>optimistic = [1 \<mapsto> [''a'' \<mapsto> Some 5], 2 \<mapsto> [''a'' \<mapsto> None]],
        base = [''a'' \<mapsto> 3::nat, ''b'' \<mapsto> 7], keys = [2, 1]\<rparr> ''b'' = Inr (Some 7) \<and>
   opened_at [Set ''a'' (Some (1::nat)) None, Set ''a'' (Some 5) (Some 1), Set ''a'' None (Some 2)] 2 = Some 2 \<and>
   get (exec [Set ''a'' (Some (1::nat)) None, Set ''a'' (Some 5) (Some 1), Set ''a'' None (Some 2)]) ''a'' = Inr None"
proof -
  let ?M = "\<lparr>optimistic = [1 \<mapsto> [''a'' \<mapsto> Some 5], 2 \<mapsto> [''a'' \<mapsto> None]],
        base = [''a'' \<mapsto> 3::nat, ''b'' \<mapsto> 7], keys = [2, 1]\<rparr>"
  let ?cs = "[Set ''a'' (Some (1::nat)) None, Set ''a'' (Some 5) (Some 1), Set ''a'' None (Some 2)]"
  have wf: "wellformed ?M" by (auto simp: wellformed_def)
  note first = get_newest_overlay [of ?M "''a''" "[] :: nat call list", THEN conjunct1, THEN mp,
      OF wf, THEN conjunct1, rule_format, of 0 "[''a'' \<mapsto> None]" None]
  from first have a: "get ?M ''a'' = Inr None"
    by simp
  have absent: "\<forall>L ov. optimistic ?M L = Some ov \<longrightarrow> ov ''b'' = None"
    by (auto split: if_splits)
  from get_newest_overlay [of ?M "''b''" "[] :: nat call list", THEN conjunct1, THEN mp,
      OF wf, THEN conjunct2, THEN mp, OF absent]
  have b: "get ?M ''b'' = Inr (Some 7)"
    by simp
  have t: "opened_at ?cs 2 = Some 2"
    by (simp add: opened_at_def)
  have ov: "optimistic (exec ?cs) 2 = Some [''a'' \<mapsto> None]"
    by (simp add: kv_eval)
  have later: "\<forall>L' t' ov'. opened_at ?cs L' = Some t' \<longrightarrow> 2 < t' \<longrightarrow>
      optimistic (exec ?cs) L' = Some ov' \<longrightarrow> ov' ''a'' = None"
    by (auto simp: opened_at_def split: if_splits)
  have val: "[''a'' \<mapsto> None :: nat option] ''a'' = Some None"
    by simp
  have c: "get (exec ?cs) ''a'' = Inr None"
    by (rule get_newest_overlay [of ?M "''a''" ?cs, THEN conjunct2, THEN spec, THEN spec, THEN spec,
        THEN spec, THEN mp, OF t, THEN mp, OF ov, THEN mp, OF val, THEN mp, OF later])
  from wf a b t c show ?thesis by blast
qed

text \<open>
  Claim C3, as amended. With a layer id that is neither \<open>null\<close> nor \<open>0\<close>, \<open>set\<close> writes
  \<open>key \<mapsto> value\<close> into the overlay of that id, also when the value is \<open>undefined\<close> (stored
  as a tombstone), opening the overlay and putting the id in front of \<open>keys\<close> when it was
  not open, and base is not modified. With the layer id \<open>null\<close>, \<open>set\<close> deletes the key
  from base when the value is \<open>undefined\<close> and overwrites it in base otherwise.
\<close>

theorem set_kv_layer_or_base:
  "(L \<noteq> 0 \<longrightarrow>
      set_kv m key v (Some L) =
        (case optimistic m L of
           None \<Rightarrow> m\<lparr>optimistic := (optimistic m)(L \<mapsto> [key \<mapsto> v]), keys := L # keys m\<rparr>
         | Some ov \<Rightarrow> m\<lparr>optimistic := (optimistic m)(L \<mapsto> ov(key \<mapsto> v))\<rparr>) \<and>
      base (set_kv m key v (Some L)) = base m) \<and>
   set_kv m key None None = m\<lparr>base := (base m)(key := None)\<rparr> \<and>
   set_kv m key (Some x) None = m\<lparr>base := (base m)(key \<mapsto> x)\<rparr>"
  by (simp add: set_kv_layer set_kv_null split: option.splits)

theorem set_kv_layer_or_base_witness:
  "(5::int) \<noteq> 0 \<and>
   set_kv (make_kv :: nat KVMap) ''a'' None (Some 5) =
     \<lparr>optimistic = [5 \<mapsto> [''a'' \<mapsto> None]], base = Map.empty, keys = [5]\<rparr> \<and>
   set_kv (make_kv :: nat KVMap) ''a'' (Some 1) None =
     \<lparr>optimistic = Map.empty, base = [''a'' \<mapsto> 1], keys = []\<rparr>"
  using set_kv_layer_or_base [of 5 "make_kv :: nat KVMap" "''a''" None 1]
  by (simp add: make_kv_def)

text \<open>
  With the layer id \<open>0\<close> and the value \<open>undefined\<close>, \<open>set\<close> deletes the key from base and
  opens no overlay.
\<close>

theorem set_kv_zero_counterexample:
  "base \<lparr>optimistic = Map.empty, base = [''k'' \<mapsto> 1::nat], keys = []\<rparr> ''k'' = Some 1 \<and>
   base (set_kv \<lparr>optimistic = Map.empty, base = [''k'' \<mapsto> 1::nat], keys = []\<rparr> ''k'' None (Some 0)) ''k'' = None \<and>
   optimistic (set_kv \<lparr>optimistic = Map.empty, base = [''k'' \<mapsto> 1::nat], keys = []\<rparr> ''k'' None (Some 0)) 0 = None \<and>
   keys (set_kv \<lparr>optimistic = Map.empty, base = [''k'' \<mapsto> 1::nat], keys = []\<rparr> ''k'' None (Some 0)) = []"
  by (simp add: set_kv_def)

lemma clear_filter:
  assumes "wellformed m"
  shows "clear m L = m\<lparr>optimistic := (optimistic m)(L := None),
                         keys := filter (\<lambda>k. k \<noteq> L) (keys m)\<rparr>"
proof (cases "L \<in> set (keys m)")
  case True
  from assms have "distinct (keys m)" by (simp add: wellformed_def)
  with True show ?thesis
    by (simp add: clear_open remove1_distinct_filter)
next
  case False
  with assms have "optimistic m L = None" by (auto simp: wellformed_def)
  then have "(optimistic m)(L := None) = optimistic m" by (simp add: fun_eq_iff)
  with False show ?thesis
    by (simp add: clear_closed filter_neq_absent)
qed

lemma clear_wellformed: "wellformed m \<Longrightarrow> wellformed (clear m L)"
  by (auto simp: clear_filter wellformed_def)

text \<open>
  Claim C6. In a container that satisfies the invariant of the interface, \<open>clear\<close> removes
  the overlay of the layer id from the dictionary and the id from \<open>keys\<close> when the layer is
  open, and returns the container as it is when the layer is not open. Clearing the same
  id a second time changes nothing. The ids that remain in \<open>keys\<close> keep their order, and
  the invariant still holds.
\<close>

theorem clear_removes_overlay:
  assumes "wellformed m"
  shows "(optimistic m L \<noteq> None \<longrightarrow>
            clear m L = m\<lparr>optimistic := (optimistic m)(L := None),
                           keys := filter (\<lambda>k. k \<noteq> L) (keys m)\<rparr>) \<and>
         (optimistic m L = None \<longrightarrow> clear m L = m) \<and>
         optimistic (clear m L) L = None \<and> L \<notin> set (keys (clear m L)) \<and>
         clear (clear m L) L = clear m L \<and>
         keys (clear m L) = filter (\<lambda>k. k \<noteq> L) (keys m) \<and>
         wellformed (clear m L)"
proof -
  note eq = clear_filter [OF assms, of L]
  have notin: "L \<notin> set (keys (clear m L))" by (simp add: eq)
  then have idem: "clear (clear m L) L = clear m L" by (rule clear_closed)
  have closed: "optimistic m L = None \<longrightarrow> clear m L = m"
  proof
    assume "optimistic m L = None"
    with assms have "L \<notin> set (keys m)" by (auto simp: wellformed_def)
    then show "clear m L = m" by (rule clear_closed)
  qed
  have gone: "optimistic (clear m L) L = None" by (simp add: eq)
  have ks: "keys (clear m L) = filter (\<lambda>k. k \<noteq> L) (keys m)" by (simp add: eq)
  from eq closed gone notin idem ks clear_wellformed [OF assms, of L] show ?thesis by blast
qed

theorem clear_removes_overlay_witness:
  "wellformed \<lparr>optimistic = [1 \<mapsto> [''a'' \<mapsto> Some (1::nat)], 2 \<mapsto> Map.empty, 3 \<mapsto> [''a'' \<mapsto> None]],
               base = Map.empty, keys = [3, 2, 1]\<rparr> \<and>
   keys (clear \<lparr>optimistic = [1 \<mapsto> [''a'' \<mapsto> Some (1::nat)], 2 \<mapsto> Map.empty, 3 \<mapsto> [''a'' \<mapsto> None]],
               base = Map.empty, keys = [3, 2, 1]\<rparr> 2) = [3, 1] \<and>
   optimistic (clear \<lparr>optimistic = [1 \<mapsto> [''a'' \<mapsto> Some (1::nat)], 2 \<mapsto> Map.empty, 3 \<mapsto> [''a'' \<mapsto> None]],
               base = Map.empty, keys = [3, 2, 1]\<rparr> 2) 2 = None"
proof -
  let ?M = "\<lparr>optimistic = [1 \<mapsto> [''a'' \<mapsto> Some (1::nat)], 2 \<mapsto> Map.empty, 3 \<mapsto> [''a'' \<mapsto> None]],
               base = Map.empty, keys = [3, 2, 1]\<rparr>"
  have wf: "wellformed ?M" by (auto simp: wellformed_def)
  from clear_removes_overlay [OF wf, of 2]
  have "keys (clear ?M 2) = filter (\<lambda>k. k \<noteq> 2) (keys ?M)" and "optimistic (clear ?M 2) 2 = None"
    by blast+
  with wf show ?thesis by simp
qed

lemma indexOf_nth: "x \<in> set xs \<Longrightarrow> xs ! nat (indexOf xs x) = x"
proof (induction xs)
  case Nil
  then show ?case by simp
next
  case (Cons y ys)
  show ?case
  proof (cases "y = x")
    case True
    then show ?thesis by simp
  next
    case False
    with Cons.prems have in_ys: "x \<in> set ys" by simp
    then have nonneg: "0 \<le> indexOf ys x" by (rule indexOf_in)
    then have "nat (indexOf ys x + 1) = Suc (nat (indexOf ys x))" by simp
    with False nonneg Cons.IH [OF in_ys] show ?thesis
      by (simp add: Let_def)
  qed
qed

lemma wellformed_set_kv: "wellformed m \<Longrightarrow> wellformed (set_kv m key v ok)"
proof (cases "ok = None \<or> ok = Some 0")
  case True
  assume "wellformed m"
  with True show ?thesis
    by (auto simp: set_kv_zero set_kv_null wellformed_def split: option.splits)
next
  case False
  assume wf: "wellformed m"
  from False obtain L where L: "ok = Some L" "L \<noteq> 0" by (cases ok) auto
  show ?thesis
  proof (cases "optimistic m L")
    case None
    with wf have "L \<notin> set (keys m)" by (auto simp: wellformed_def)
    with wf None L show ?thesis
      by (auto simp: set_kv_layer wellformed_def)
  next
    case (Some ov)
    with wf L show ?thesis
      by (auto simp: set_kv_layer wellformed_def)
  qed
qed

text \<open>
  Claim C4, as amended. Let the layer id \<open>L\<close> be other than \<open>0\<close>, and let the container
  satisfy the invariant of the interface and have no overlay other than that of \<open>L\<close>
  with the key present. After \<open>set(c, k, v1, null)\<close> and \<open>set(c, k, v2, L)\<close>, \<open>get(c, k)\<close>
  returns \<open>v2\<close>; after \<open>clear(c, L)\<close> it returns \<open>v1\<close> again.
\<close>

theorem optimistic_write_rolled_back:
  assumes "wellformed m" and "L \<noteq> 0"
    and "\<forall>L' ov. L' \<noteq> L \<longrightarrow> optimistic m L' = Some ov \<longrightarrow> ov key = None"
  shows "get (set_kv (set_kv m key v1 None) key v2 (Some L)) key = Inr v2 \<and>
         get (clear (set_kv (set_kv m key v1 None) key v2 (Some L)) L) key = Inr v1"
proof -
  let ?m1 = "set_kv m key v1 None"
  let ?m2 = "set_kv ?m1 key v2 (Some L)"
  let ?m3 = "clear ?m2 L"
  have o1: "optimistic ?m1 = optimistic m" and b1: "base ?m1 key = v1"
    by (simp_all add: set_kv_null split: option.splits)
  have wf1: "wellformed ?m1" using assms(1) by (rule wellformed_set_kv)
  have wf2: "wellformed ?m2" using wf1 by (rule wellformed_set_kv)
  have b2: "base ?m2 = base ?m1"
    using assms(2) by (simp add: set_kv_layer split: option.splits)
  obtain ov2 where ov2: "optimistic ?m2 L = Some ov2" "ov2 key = Some v2"
    using assms(2) by (cases "optimistic ?m1 L") (simp_all add: set_kv_layer)
  have others: "optimistic ?m2 L' = optimistic m L'" if "L' \<noteq> L" for L'
    using assms(2) that by (cases "optimistic ?m1 L") (simp_all add: set_kv_layer o1)
  from ov2 wf2 have "L \<in> set (keys ?m2)" by (auto simp: wellformed_def)
  then obtain i where i: "i < length (keys ?m2)" "keys ?m2 ! i = L"
    by (auto simp: in_set_conv_nth)
  have "\<forall>j<i. \<forall>ov'. optimistic ?m2 (keys ?m2 ! j) = Some ov' \<longrightarrow> ov' key = None"
  proof (intro allI impI)
    fix j ov'
    assume j: "j < i" and ov': "optimistic ?m2 (keys ?m2 ! j) = Some ov'"
    from wf2 have "distinct (keys ?m2)" by (simp add: wellformed_def)
    with i j have "keys ?m2 ! j \<noteq> L"
      using nth_eq_iff_index_eq [of "keys ?m2" j i] by auto
    with ov' assms(3) others show "ov' key = None" by auto
  qed
  with wf2 i ov2 have first: "get ?m2 key = Inr v2"
    by (intro get_first [of ?m2 i ov2]) auto
  have wf3: "wellformed ?m3" using wf2 by (rule clear_wellformed)
  have m3: "optimistic ?m3 = (optimistic ?m2)(L := None)" "base ?m3 = base ?m2"
    by (simp_all add: clear_filter [OF wf2])
  have "\<forall>L' ov. optimistic ?m3 L' = Some ov \<longrightarrow> ov key = None"
    using assms(3) others by (auto simp: m3)
  with wf3 have "get ?m3 key = Inr (base ?m3 key)" by (rule get_base)
  with first show ?thesis by (simp add: m3 b2 b1)
qed

theorem optimistic_write_rolled_back_witness:
  "wellformed \<lparr>optimistic = [7 \<mapsto> [''x'' \<mapsto> Some 0]], base = [''k'' \<mapsto> 4::nat], keys = [7]\<rparr> \<and>
   (3::int) \<noteq> 0 \<and>
   get (set_kv (set_kv \<lparr>optimistic = [7 \<mapsto> [''x'' \<mapsto> Some 0]], base = [''k'' \<mapsto> 4::nat], keys = [7]\<rparr>
                  ''k'' (Some 1) None) ''k'' (Some 2) (Some 3)) ''k'' = Inr (Some 2) \<and>
   get (clear (set_kv (set_kv \<lparr>optimistic = [7 \<mapsto> [''x'' \<mapsto> Some 0]], base = [''k'' \<mapsto> 4::nat], keys = [7]\<rparr>
                  ''k'' (Some 1) None) ''k'' (Some 2) (Some 3)) 3) ''k'' = Inr (Some 1)"
proof -
  let ?M = "\<lparr>optimistic = [7 \<mapsto> [''x'' \<mapsto> Some 0]], base = [''k'' \<mapsto> 4::nat], keys = [7]\<rparr>"
  have wf: "wellformed ?M" by (simp add: wellformed_def)
  have nz: "(3::int) \<noteq> 0" by simp
  have others: "\<forall>L' ov. L' \<noteq> 3 \<longrightarrow> optimistic ?M L' = Some ov \<longrightarrow> ov ''k'' = None"
    by (auto split: if_splits)
  from wf nz optimistic_write_rolled_back [OF wf nz others, of "Some 1" "Some 2"]
  show ?thesis by blast
qed

text \<open>
  With the layer id \<open>0\<close> the second write goes to base and \<open>clear\<close> does not bring \<open>v1\<close>
  back. With a newer open layer \<open>7\<close> that has the key, \<open>get\<close> returns the value of layer
  \<open>7\<close> after the write to layer \<open>3\<close>, and again after \<open>clear\<close> of layer \<open>3\<close>.
\<close>

theorem optimistic_write_counterexample:
  "get (clear (set_kv (set_kv (make_kv :: nat KVMap) ''k'' (Some 1) None) ''k'' (Some 2) (Some 0)) 0) ''k''
     = Inr (Some 2) \<and>
   get (set_kv (set_kv (exec [Set ''x'' (Some 0) (Some 3), Set ''k'' (Some (9::nat)) (Some 7)])
                  ''k'' (Some 1) None) ''k'' (Some 2) (Some 3)) ''k'' = Inr (Some 9) \<and>
   get (clear (set_kv (set_kv (exec [Set ''x'' (Some 0) (Some 3), Set ''k'' (Some (9::nat)) (Some 7)])
                  ''k'' (Some 1) None) ''k'' (Some 2) (Some 3)) 3) ''k'' = Inr (Some 9)"
  by (simp add: kv_eval)

text \<open>
  Claim C5. In a container reached from \<open>make()\<close> by calls of \<open>set\<close> and \<open>clear\<close>, no layer id
  occurs twice in \<open>keys\<close> and \<open>keys\<close> holds exactly the ids that have an overlay in the
  dictionary, so there is one overlay per open layer id. A \<open>set\<close> that names an open layer
  keeps the entries of its overlay and adds the write to them; \<open>keys\<close>, base and the other
  overlays stay as they are. \<open>set\<close> has no failing path.
\<close>

theorem one_overlay_per_layer:
  "distinct (keys (exec cs)) \<and> set (keys (exec cs)) = dom (optimistic (exec cs)) \<and>
   (\<forall>L ov. optimistic (exec cs) L = Some ov \<longrightarrow>
      set_kv (exec cs) key v (Some L) =
        (exec cs)\<lparr>optimistic := (optimistic (exec cs))(L \<mapsto> ov(key \<mapsto> v))\<rparr>)"
proof (intro conjI allI impI)
  show "distinct (keys (exec cs))" "set (keys (exec cs)) = dom (optimistic (exec cs))"
    using exec_wellformed [of cs] by (simp_all add: wellformed_def)
next
  fix L ov
  assume ov: "optimistic (exec cs) L = Some ov"
  with exec_zero_closed [of cs] have "L \<noteq> 0" by auto
  with ov show "set_kv (exec cs) key v (Some L) =
      (exec cs)\<lparr>optimistic := (optimistic (exec cs))(L \<mapsto> ov(key \<mapsto> v))\<rparr>"
    by (simp add: set_kv_layer)
qed

theorem one_overlay_per_layer_witness:
  "optimistic (exec [Set ''a'' (Some (1::nat)) (Some 4)]) 4 = Some [''a'' \<mapsto> Some 1] \<and>
   set_kv (exec [Set ''a'' (Some (1::nat)) (Some 4)]) ''b'' (Some 2) (Some 4) =
     \<lparr>optimistic = [4 \<mapsto> [''a'' \<mapsto> Some 1, ''b'' \<mapsto> Some 2]], base = Map.empty, keys = [4]\<rparr>"
proof -
  let ?cs = "[Set ''a'' (Some (1::nat)) (Some 4)]"
  have ov: "optimistic (exec ?cs) 4 = Some [''a'' \<mapsto> Some 1]"
    by (simp add: kv_eval)
  from one_overlay_per_layer [of ?cs "''b''" "Some 2"]
  have "\<forall>L ov. optimistic (exec ?cs) L = Some ov \<longrightarrow>
      set_kv (exec ?cs) ''b'' (Some 2) (Some L) =
        (exec ?cs)\<lparr>optimistic := (optimistic (exec ?cs))(L \<mapsto> ov(''b'' \<mapsto> Some 2))\<rparr>"
    by (elim conjE)
  from this [rule_format, OF ov] have "set_kv (exec ?cs) ''b'' (Some 2) (Some 4) =
     \<lparr>optimistic = [4 \<mapsto> [''a'' \<mapsto> Some 1, ''b'' \<mapsto> Some 2]], base = Map.empty, keys = [4]\<rparr>"
    by (simp add: kv_eval)
  with ov show ?thesis by (rule conjI)
qed

text \<open>
  Claim C10. In a container reached from \<open>make()\<close> by calls of \<open>set\<close> and \<open>clear\<close>, \<open>keys\<close>
  lists exactly the ids that have an overlay in the dictionary, each once; these are the
  layers that the calls have opened and not cleared since; and \<open>keys\<close> is ordered by the
  time of opening, latest first. So \<open>get\<close> never reads a missing overlay (it returns a
  value), and the id of an open layer stands at exactly one position of \<open>keys\<close>, which is
  the position that \<open>indexOf\<close> finds.
\<close>

theorem keys_list_open_overlays:
  "set (keys (exec cs)) = dom (optimistic (exec cs)) \<and> distinct (keys (exec cs)) \<and>
   (\<forall>L. L \<in> dom (optimistic (exec cs)) \<longleftrightarrow> opened_at cs L \<noteq> None) \<and>
   sorted_wrt (newer cs) (keys (exec cs)) \<and>
   (\<exists>r. get (exec cs) key = Inr r) \<and>
   (\<forall>L. L \<in> dom (optimistic (exec cs)) \<longrightarrow>
      (\<exists>!i. i < length (keys (exec cs)) \<and> keys (exec cs) ! i = L) \<and>
      0 \<le> indexOf (keys (exec cs)) L \<and>
      keys (exec cs) ! nat (indexOf (keys (exec cs)) L) = L)"
proof -
  have wf: "set (keys (exec cs)) = dom (optimistic (exec cs))" "distinct (keys (exec cs))"
    using exec_wellformed [of cs] by (simp_all add: wellformed_def)
  have opened: "\<forall>L. L \<in> dom (optimistic (exec cs)) \<longleftrightarrow> opened_at cs L \<noteq> None"
    using exec_open_iff [of _ cs] by blast
  have total: "\<exists>r. get (exec cs) key = Inr r"
    unfolding get_def using wf(1) by (intro get_loop_total) simp
  have position: "\<forall>L. L \<in> dom (optimistic (exec cs)) \<longrightarrow>
      (\<exists>!i. i < length (keys (exec cs)) \<and> keys (exec cs) ! i = L) \<and>
      0 \<le> indexOf (keys (exec cs)) L \<and>
      keys (exec cs) ! nat (indexOf (keys (exec cs)) L) = L"
  proof (intro allI impI)
    fix L
    assume "L \<in> dom (optimistic (exec cs))"
    with wf(1) have "L \<in> set (keys (exec cs))" by simp
    with wf(2) show "(\<exists>!i. i < length (keys (exec cs)) \<and> keys (exec cs) ! i = L) \<and>
      0 \<le> indexOf (keys (exec cs)) L \<and>
      keys (exec cs) ! nat (indexOf (keys (exec cs)) L) = L"
      by (simp add: distinct_Ex1 indexOf_in indexOf_nth)
  qed
  from wf opened exec_sorted [of cs] total position show ?thesis by blast
qed

theorem keys_list_open_overlays_witness:
  "opened_at [Set ''a'' (Some (1::nat)) (Some 1), Set ''a'' (Some 2) (Some 2), Clear 1, Set ''b'' None (Some 1)] 1 = Some 3 \<and>
   opened_at [Set ''a'' (Some (1::nat)) (Some 1), Set ''a'' (Some 2) (Some 2), Clear 1, Set ''b'' None (Some 1)] 2 = Some 1 \<and>
   keys (exec [Set ''a'' (Some (1::nat)) (Some 1), Set ''a'' (Some 2) (Some 2), Clear 1, Set ''b'' None (Some 1)]) = [1, 2] \<and>
   newer [Set ''a'' (Some (1::nat)) (Some 1), Set ''a'' (Some 2) (Some 2), Clear 1, Set ''b'' None (Some 1)] 1 2"
proof -
  let ?cs = "[Set ''a'' (Some (1::nat)) (Some 1), Set ''a'' (Some 2) (Some 2), Clear 1, Set ''b'' None (Some 1)]"
  have t: "opened_at ?cs 1 = Some 3" "opened_at ?cs 2 = Some 1"
    by (simp_all add: opened_at_def)
  have ks: "keys (exec ?cs) = [1, 2]"
    by (simp add: kv_eval)
  from keys_list_open_overlays [of ?cs "''a''"] have "sorted_wrt (newer ?cs) (keys (exec ?cs))"
    by (elim conjE)
  then have "newer ?cs 1 2" unfolding ks by simp
  with t ks show ?thesis by blast
qed

section \<open>Properties of the store\<close>

lemma find_entity_records: "find_entity s key = records s key"
  by (simp add: find_entity_def split: option.splits)

lemma resolveProperty_stored:
  "parent (keyOfField h field args) = Some (Scalar x) \<Longrightarrow>
   resolveProperty h s parent field args = ResultScalar x"
  by (simp add: resolveProperty_def Let_def)

lemma resolveProperty_null:
  "parent (keyOfField h field args) = Some Null \<Longrightarrow>
   resolveProperty h s parent field args = ResultNull"
  by (simp add: resolveProperty_def Let_def)

lemma resolveProperty_absent:
  "parent (keyOfField h field args) = None \<Longrightarrow>
   resolveProperty h s parent field args = ResultNull"
  by (simp add: resolveProperty_def Let_def dom_def)

lemma resolveProperty_link:
  "parent (keyOfField h field args) = Some Undefined \<Longrightarrow>
   resolveProperty h s parent field args =
     (case keyOfEntity h parent of
        None \<Rightarrow> ResultNull
      | Some entityKey \<Rightarrow>
          (case links s (joinKeys h entityKey (keyOfField h field args)) of
             Some (LinkArray link) \<Rightarrow>
               ResultArray (map (\<lambda>key. case key of Some k \<Rightarrow> find_entity s k | None \<Rightarrow> None) link)
           | Some (LinkKey link) \<Rightarrow>
               (if link \<noteq> [] then
                  (case find_entity s link of Some entity \<Rightarrow> ResultEntity entity | None \<Rightarrow> ResultNull)
                else ResultNull)
           | Some LinkNull \<Rightarrow> ResultNull
           | None \<Rightarrow> ResultNull))"
  by (cases "keyOfEntity h parent") (simp_all add: resolveProperty_def Let_def readLink_def dom_def)

text \<open>
  What \<open>resolveProperty\<close> returns, case by case, with
  \<open>fieldKey = keyOfField(field, args || null)\<close>: the stored value \<open>parent[fieldKey]\<close> when the
  key is present with a value other than \<open>undefined\<close> (a stored \<open>null\<close> included). When the
  key is present with the value \<open>undefined\<close>, \<open>null\<close> if \<open>keyOfEntity(parent)\<close> is \<open>null\<close>;
  otherwise the link at \<open>joinKeys(entityKey, fieldKey)\<close> is read: for an array link the
  result is an array of the same length whose slot \<open>i\<close> is \<open>null\<close> when slot \<open>i\<close> of the
  link is \<open>null\<close> and \<open>find\<close> of the key in slot \<open>i\<close> otherwise (\<open>null\<close> for a missing
  entity); for a link that is a non-empty key the result is \<open>find\<close> of that key; for a
  link that is \<open>null\<close> or not set the result is \<open>null\<close>. When the key is absent from the
  parent the result is \<open>null\<close>.
\<close>

theorem resolveProperty_spec:
  assumes "fieldKey = keyOfField h field args"
  shows
    "(\<forall>x. parent fieldKey = Some (Scalar x) \<longrightarrow>
        resolveProperty h s parent field args = ResultScalar x) \<and>
     (parent fieldKey = Some Null \<longrightarrow> resolveProperty h s parent field args = ResultNull) \<and>
     (parent fieldKey = Some Undefined \<longrightarrow>
        (keyOfEntity h parent = None \<longrightarrow> resolveProperty h s parent field args = ResultNull) \<and>
        (\<forall>entityKey. keyOfEntity h parent = Some entityKey \<longrightarrow>
           (\<forall>link. links s (joinKeys h entityKey fieldKey) = Some (LinkArray link) \<longrightarrow>
              (\<exists>slots. resolveProperty h s parent field args = ResultArray slots \<and>
                 length slots = length link \<and>
                 (\<forall>i<length link.
                    slots ! i = (case link ! i of None \<Rightarrow> None | Some k \<Rightarrow> find_entity s k)))) \<and>
           (\<forall>link. links s (joinKeys h entityKey fieldKey) = Some (LinkKey link) \<longrightarrow> link \<noteq> [] \<longrightarrow>
              resolveProperty h s parent field args =
                (case find_entity s link of Some entity \<Rightarrow> ResultEntity entity | None \<Rightarrow> ResultNull)) \<and>
           (links s (joinKeys h entityKey fieldKey) = Some LinkNull \<longrightarrow>
              resolveProperty h s parent field args = ResultNull) \<and>
           (links s (joinKeys h entityKey fieldKey) = None \<longrightarrow>
              resolveProperty h s parent field args = ResultNull))) \<and>
     (parent fieldKey = None \<longrightarrow> resolveProperty h s parent field args = ResultNull)"
  unfolding assms
  by (intro conjI allI impI)
     (simp_all add: resolveProperty_stored resolveProperty_null resolveProperty_absent
        resolveProperty_link split: option.splits)


theorem resolveProperty_spec_witness:
  "keyOfEntity example_helpers
     [''__typename'' \<mapsto> Scalar ''User'', ''id'' \<mapsto> Scalar ''1'', ''name'' \<mapsto> Scalar ''Ann'',
      ''todos'' \<mapsto> Undefined, ''best'' \<mapsto> Undefined] = Some ''User:1'' \<and>
   resolveProperty example_helpers
     \<lparr>records = [''Todo:1'' \<mapsto> [''__typename'' \<mapsto> Scalar ''Todo'', ''id'' \<mapsto> Scalar ''1'']],
      links = [''User:1.todos'' \<mapsto> LinkArray [Some ''Todo:1'', None, Some ''Todo:9''],
               ''User:1.best'' \<mapsto> LinkKey ''Todo:1'']\<rparr>
     [''__typename'' \<mapsto> Scalar ''User'', ''id'' \<mapsto> Scalar ''1'', ''name'' \<mapsto> Scalar ''Ann'',
      ''todos'' \<mapsto> Undefined, ''best'' \<mapsto> Undefined]
     ''todos'' None =
   ResultArray [Some [''__typename'' \<mapsto> Scalar ''Todo'', ''id'' \<mapsto> Scalar ''1''], None, None] \<and>
   resolveProperty example_helpers
     \<lparr>records = [''Todo:1'' \<mapsto> [''__typename'' \<mapsto> Scalar ''Todo'', ''id'' \<mapsto> Scalar ''1'']],
      links = [''User:1.todos'' \<mapsto> LinkArray [Some ''Todo:1'', None, Some ''Todo:9''],
               ''User:1.best'' \<mapsto> LinkKey ''Todo:1'']\<rparr>
     [''__typename'' \<mapsto> Scalar ''User'', ''id'' \<mapsto> Scalar ''1'', ''name'' \<mapsto> Scalar ''Ann'',
      ''todos'' \<mapsto> Undefined, ''best'' \<mapsto> Undefined]
     ''best'' None =
   ResultEntity [''__typename'' \<mapsto> Scalar ''Todo'', ''id'' \<mapsto> Scalar ''1''] \<and>
   resolveProperty example_helpers
     \<lparr>records = [''Todo:1'' \<mapsto> [''__typename'' \<mapsto> Scalar ''Todo'', ''id'' \<mapsto> Scalar ''1'']],
      links = [''User:1.todos'' \<mapsto> LinkArray [Some ''Todo:1'', None, Some ''Todo:9''],
               ''User:1.best'' \<mapsto> LinkKey ''Todo:1'']\<rparr>
     [''__typename'' \<mapsto> Scalar ''User'', ''id'' \<mapsto> Scalar ''1'', ''name'' \<mapsto> Scalar ''Ann'',
      ''todos'' \<mapsto> Undefined, ''best'' \<mapsto> Undefined]
     ''name'' None =
   ResultScalar ''Ann'' \<and>
   resolveProperty example_helpers
     \<lparr>records = [''Todo:1'' \<mapsto> [''__typename'' \<mapsto> Scalar ''Todo'', ''id'' \<mapsto> Scalar ''1'']],
      links = [''User:1.todos'' \<mapsto> LinkArray [Some ''Todo:1'', None, Some ''Todo:9''],
               ''User:1.best'' \<mapsto> LinkKey ''Todo:1'']\<rparr>
     [''__typename'' \<mapsto> Scalar ''User'', ''id'' \<mapsto> Scalar ''1'', ''name'' \<mapsto> Scalar ''Ann'',
      ''todos'' \<mapsto> Undefined, ''best'' \<mapsto> Undefined]
     ''age'' None =
   ResultNull"
proof -
  let ?T = "[''__typename'' \<mapsto> Scalar ''Todo'', ''id'' \<mapsto> Scalar ''1''] :: string Entity"
  let ?S = "\<lparr>records = [''Todo:1'' \<mapsto> ?T],
      links = [''User:1.todos'' \<mapsto> LinkArray [Some ''Todo:1'', None, Some ''Todo:9''],
               ''User:1.best'' \<mapsto> LinkKey ''Todo:1'']\<rparr>"
  let ?P = "[''__typename'' \<mapsto> Scalar ''User'', ''id'' \<mapsto> Scalar ''1'', ''name'' \<mapsto> Scalar ''Ann'',
      ''todos'' \<mapsto> Undefined, ''best'' \<mapsto> Undefined] :: string Entity"
  have fk: "f = keyOfField example_helpers f None" for f
    by (simp add: example_helpers_def)
  have ek: "keyOfEntity example_helpers ?P = Some ''User:1''"
    by (simp add: example_helpers_def)
  have todos: "?P ''todos'' = Some Undefined" and best: "?P ''best'' = Some Undefined"
    and name: "?P ''name'' = Some (Scalar ''Ann'')" and age: "?P ''age'' = None"
    by simp_all
  have lk_todos: "links ?S (joinKeys example_helpers ''User:1'' ''todos'') =
      Some (LinkArray [Some ''Todo:1'', None, Some ''Todo:9''])"
    and lk_best: "links ?S (joinKeys example_helpers ''User:1'' ''best'') = Some (LinkKey ''Todo:1'')"
    by (simp_all add: example_helpers_def)
  have nonempty: "''Todo:1'' \<noteq> []" by simp
  note arr = resolveProperty_spec [OF fk [of "''todos''"], of ?P ?S, THEN conjunct2, THEN conjunct2, THEN conjunct1,
      THEN mp, OF todos, THEN conjunct2, THEN spec, THEN mp, OF ek, THEN conjunct1, THEN spec,
      THEN mp, OF lk_todos]
  then obtain slots where r: "resolveProperty example_helpers ?S ?P ''todos'' None = ResultArray slots"
    and len: "length slots = 3"
    and nth: "\<forall>i<3. slots ! i =
      (case [Some ''Todo:1'', None, Some ''Todo:9''] ! i of None \<Rightarrow> None | Some k \<Rightarrow> find_entity ?S k)"
    by auto
  from nth have "slots ! 0 = Some ?T" "slots ! 1 = None" "slots ! 2 = None"
    by (simp_all add: find_entity_def)
  with len have "slots = [Some ?T, None, None]"
    by (simp add: list_eq_iff_nth_eq less_Suc_eq numeral_3_eq_3 numeral_2_eq_2 all_conj_distrib)
  with r have r_todos: "resolveProperty example_helpers ?S ?P ''todos'' None =
      ResultArray [Some ?T, None, None]"
    by simp
  from resolveProperty_spec [OF fk [of "''best''"], of ?P ?S, THEN conjunct2, THEN conjunct2, THEN conjunct1,
      THEN mp, OF best, THEN conjunct2, THEN spec, THEN mp, OF ek, THEN conjunct2, THEN conjunct1,
      THEN spec, THEN mp, OF lk_best, THEN mp, OF nonempty]
  have r_best: "resolveProperty example_helpers ?S ?P ''best'' None = ResultEntity ?T"
    by (simp add: find_entity_def)
  have r_name: "resolveProperty example_helpers ?S ?P ''name'' None = ResultScalar ''Ann''"
    by (rule resolveProperty_spec [OF fk [of "''name''"], of ?P ?S, THEN conjunct1, THEN spec, THEN mp,
        OF name])
  have r_age: "resolveProperty example_helpers ?S ?P ''age'' None = ResultNull"
    by (rule resolveProperty_spec [OF fk [of "''age''"], of ?P ?S, THEN conjunct2, THEN conjunct2,
        THEN conjunct2, THEN mp, OF age])
  from ek r_todos r_best r_name r_age show ?thesis by blast
qed

text \<open>
  A scalar link is resolved through \<open>find\<close> whenever the store has no record under the
  empty key, which is no entity key: the test \<open>link ? ... : null\<close> then agrees with
  \<open>link !== null\<close>.
\<close>

lemma resolveProperty_scalar_link:
  assumes "parent (keyOfField h field args) = Some Undefined"
    and "keyOfEntity h parent = Some entityKey"
    and "links s (joinKeys h entityKey (keyOfField h field args)) = Some (LinkKey link)"
    and "records s [] = None"
  shows "resolveProperty h s parent field args =
           (case find_entity s link of Some entity \<Rightarrow> ResultEntity entity | None \<Rightarrow> ResultNull)"
  using assms by (cases "link = []") (simp_all add: resolveProperty_link find_entity_def)


lemma remove_entity_find: "find_entity (remove_entity s k) k' = (if k' = k then None else find_entity s k')"
  by (simp add: find_entity_def remove_entity_def)

lemma remove_entity_links: "links (remove_entity s k) = links s"
  by (simp add: remove_entity_def)

text \<open>
  Claim C9. \<open>remove(k)\<close> deletes the record under \<open>k\<close> and nothing else: the links, the
  other records and the rest of the store stay as they are. A later \<open>resolveProperty\<close>
  through a link that still names \<open>k\<close> returns \<open>null\<close> for a link that is the key \<open>k\<close>, and
  for an array link an array of the same length with \<open>null\<close> in every slot that names \<open>k\<close>,
  the other slots being resolved as before. \<open>resolveProperty\<close> has no failing path.
\<close>

theorem remove_entity_no_cascade:
  "links (remove_entity s k) = links s \<and>
   Store.more (remove_entity s k) = Store.more s \<and>
   records (remove_entity s k) k = None \<and>
   (\<forall>k'. k' \<noteq> k \<longrightarrow> records (remove_entity s k) k' = records s k') \<and>
   (parent (keyOfField h field args) = Some Undefined \<longrightarrow>
      (\<forall>entityKey. keyOfEntity h parent = Some entityKey \<longrightarrow>
         (links s (joinKeys h entityKey (keyOfField h field args)) = Some (LinkKey k) \<longrightarrow>
            resolveProperty h (remove_entity s k) parent field args = ResultNull) \<and>
         (\<forall>link. links s (joinKeys h entityKey (keyOfField h field args)) = Some (LinkArray link) \<longrightarrow>
            (\<exists>slots. resolveProperty h (remove_entity s k) parent field args = ResultArray slots \<and>
               length slots = length link \<and>
               (\<forall>i<length link.
                  (link ! i = Some k \<longrightarrow> slots ! i = None) \<and>
                  (link ! i = None \<longrightarrow> slots ! i = None) \<and>
                  (\<forall>k'. link ! i = Some k' \<longrightarrow> k' \<noteq> k \<longrightarrow> slots ! i = find_entity s k'))))))"
proof (intro conjI allI impI)
  show "links (remove_entity s k) = links s" "Store.more (remove_entity s k) = Store.more s"
    "records (remove_entity s k) k = None"
    by (simp_all add: remove_entity_def)
next
  fix k'
  assume "k' \<noteq> k"
  then show "records (remove_entity s k) k' = records s k'"
    by (simp add: remove_entity_def)
next
  fix entityKey
  assume "parent (keyOfField h field args) = Some Undefined" "keyOfEntity h parent = Some entityKey"
    "links s (joinKeys h entityKey (keyOfField h field args)) = Some (LinkKey k)"
  then show "resolveProperty h (remove_entity s k) parent field args = ResultNull"
    by (simp add: resolveProperty_link remove_entity_find remove_entity_links)
next
  fix entityKey link
  assume "parent (keyOfField h field args) = Some Undefined" "keyOfEntity h parent = Some entityKey"
    "links s (joinKeys h entityKey (keyOfField h field args)) = Some (LinkArray link)"
  then have "resolveProperty h (remove_entity s k) parent field args =
      ResultArray (map (\<lambda>key. case key of Some k' \<Rightarrow> find_entity (remove_entity s k) k' | None \<Rightarrow> None) link)"
    by (simp add: resolveProperty_link remove_entity_links)
  then show "\<exists>slots. resolveProperty h (remove_entity s k) parent field args = ResultArray slots \<and>
      length slots = length link \<and>
      (\<forall>i<length link.
         (link ! i = Some k \<longrightarrow> slots ! i = None) \<and>
         (link ! i = None \<longrightarrow> slots ! i = None) \<and>
         (\<forall>k'. link ! i = Some k' \<longrightarrow> k' \<noteq> k \<longrightarrow> slots ! i = find_entity s k'))"
    by (simp add: remove_entity_find)
qed

theorem remove_entity_no_cascade_witness:
  "resolveProperty example_helpers
     (remove_entity
        \<lparr>records = [''Todo:1'' \<mapsto> [''id'' \<mapsto> Scalar ''1''], ''Todo:2'' \<mapsto> [''id'' \<mapsto> Scalar ''2'']],
         links = [''User:1.todos'' \<mapsto> LinkArray [Some ''Todo:1'', None, Some ''Todo:2'']]\<rparr>
        ''Todo:1'')
     [''__typename'' \<mapsto> Scalar ''User'', ''id'' \<mapsto> Scalar ''1'', ''todos'' \<mapsto> Undefined]
     ''todos'' None =
   ResultArray [None, None, Some [''id'' \<mapsto> Scalar ''2'']]"
proof -
  let ?S = "\<lparr>records = [''Todo:1'' \<mapsto> [''id'' \<mapsto> Scalar ''1''], ''Todo:2'' \<mapsto> [''id'' \<mapsto> Scalar ''2'']],
         links = [''User:1.todos'' \<mapsto> LinkArray [Some ''Todo:1'', None, Some ''Todo:2'']]\<rparr> :: string Store"
  let ?P = "[''__typename'' \<mapsto> Scalar ''User'', ''id'' \<mapsto> Scalar ''1'', ''todos'' \<mapsto> Undefined] :: string Entity"
  have pf: "?P (keyOfField example_helpers ''todos'' None) = Some Undefined"
    by (simp add: example_helpers_def)
  have ek: "keyOfEntity example_helpers ?P = Some ''User:1''"
    by (simp add: example_helpers_def)
  have lk: "links ?S (joinKeys example_helpers ''User:1'' (keyOfField example_helpers ''todos'' None)) =
      Some (LinkArray [Some ''Todo:1'', None, Some ''Todo:2''])"
    by (simp add: example_helpers_def)
  note arr = remove_entity_no_cascade [of ?S "''Todo:1''" ?P example_helpers "''todos''" None,
      THEN conjunct2, THEN conjunct2, THEN conjunct2, THEN conjunct2,
      THEN mp, OF pf, THEN spec, THEN mp, OF ek, THEN conjunct2, THEN spec, THEN mp, OF lk]
  then obtain slots where
    r: "resolveProperty example_helpers (remove_entity ?S ''Todo:1'') ?P ''todos'' None = ResultArray slots"
    and len: "length slots = 3"
    and nth: "\<forall>i<3.
      ([Some ''Todo:1'', None, Some ''Todo:2''] ! i = Some ''Todo:1'' \<longrightarrow> slots ! i = None) \<and>
      ([Some ''Todo:1'', None, Some ''Todo:2''] ! i = None \<longrightarrow> slots ! i = None) \<and>
      (\<forall>k'. [Some ''Todo:1'', None, Some ''Todo:2''] ! i = Some k' \<longrightarrow> k' \<noteq> ''Todo:1'' \<longrightarrow>
         slots ! i = find_entity ?S k')"
    by auto
  from nth [rule_format, of 0] nth [rule_format, of 1] nth [rule_format, of 2]
  have "slots ! 0 = None" "slots ! 1 = None" "slots ! 2 = Some [''id'' \<mapsto> Scalar ''2'']"
    by (simp_all add: find_entity_def)
  with len have "slots = [None, None, Some [''id'' \<mapsto> Scalar ''2'']]"
    by (simp add: list_eq_iff_nth_eq less_Suc_eq numeral_3_eq_3 numeral_2_eq_2 all_conj_distrib)
  with r show ?thesis by simp
qed

section \<open>Properties of the schema predicates\<close>

lemma getRootKey_no_schema:
  "new_SchemaPredicates parseSchema None = Inr sp \<Longrightarrow>
   getRootKey sp RootField_query = Some ''Query'' \<and>
   getRootKey sp RootField_mutation = Some ''Mutation'' \<and>
   getRootKey sp RootField_subscription = Some ''Subscription''"
  by (auto simp: new_SchemaPredicates_def getRootKey_def)

lemma getRootKey_schema:
  "new_SchemaPredicates parseSchema (Some sch) = Inr sp \<Longrightarrow>
   getRootKey sp RootField_query = queryType sch \<and>
   getRootKey sp RootField_mutation = mutationType sch \<and>
   getRootKey sp RootField_subscription = subscriptionType sch"
  by (auto simp: new_SchemaPredicates_def getRootKey_def split: sum.splits)

text \<open>
  Claim C7 at a schema that declares a query type only: the constructor stores \<open>null\<close> for
  the mutation and the subscription root, and \<open>getRootKey\<close> returns \<open>null\<close> for them, not
  \<open>Mutation\<close> and \<open>Subscription\<close>. The lemmas before it give \<open>getRootKey\<close> without a schema
  (the conventional names) and with a schema (what the schema declares).
\<close>

theorem getRootKey_missing_type_no_fallback:
  "map_sum id
     (\<lambda>sp. (getRootKey sp RootField_query, getRootKey sp RootField_mutation,
            getRootKey sp RootField_subscription))
     (new_SchemaPredicates
        (\<lambda>sch. Inr \<lparr>definitions =
           [\<lparr>kind = OBJECT_TYPE_DEFINITION, name_value = ''Query'',
             node_fields = Some [\<lparr>field_name_value = ''todos'', field_type_kind = ''ListType''\<rparr>]\<rparr>]\<rparr>)
        (Some \<lparr>types = [\<lparr>type_kind = ''OBJECT'', type_name = ''Query'', possibleTypes = None\<rparr>],
               queryType = Some ''Query'', mutationType = None, subscriptionType = None\<rparr>))
   = Inr (Some ''Query'', None, None)"
  by (simp add: new_SchemaPredicates_def getRootKey_def UNION_TYPE_DEFINITION_def
      INTERFACE_TYPE_DEFINITION_def)

lemma find_filter: "find P xs = (case filter P xs of [] \<Rightarrow> None | x # _ \<Rightarrow> Some x)"
  by (induction xs) auto

lemma distinct_map_filter:
  "distinct (map f xs) \<Longrightarrow> filter (\<lambda>x. f x = a) xs = [] \<or> (\<exists>x. filter (\<lambda>x. f x = a) xs = [x])"
proof (induction xs)
  case Nil
  then show ?case by simp
next
  case (Cons y ys)
  show ?case
  proof (cases "f y = a")
    case True
    with Cons.prems have "\<forall>x\<in>set ys. f x \<noteq> a" by (auto simp: image_iff)
    then have "filter (\<lambda>x. f x = a) ys = []" by (simp add: filter_empty_conv)
    with True show ?thesis by simp
  next
    case False
    with Cons show ?thesis by simp
  qed
qed

lemma isFieldNullable_first:
  "schema sp = Some doc \<Longrightarrow>
   isFieldNullable sp typename fieldName =
     (case object_types doc typename of
        [] \<Rightarrow> True
      | node # _ \<Rightarrow>
          (case filter (\<lambda>fld. field_name_value fld = fieldName) (fields_of node) of
             [] \<Rightarrow> True
           | fld # _ \<Rightarrow> field_type_kind fld \<noteq> NON_NULL_TYPE))"
  by (simp add: isFieldNullable_def find_filter object_types_def fields_of_def
      split: list.splits option.splits)

lemma object_types_unique:
  assumes "unique_names doc"
  shows "object_types doc typename = [] \<or> (\<exists>node. object_types doc typename = [node])"
proof -
  have "object_types doc typename =
      filter (\<lambda>node. name_value node = typename)
        (filter (\<lambda>node. kind node = OBJECT_TYPE_DEFINITION) (definitions doc))"
    by (simp add: object_types_def conj_commute)
  with assms distinct_map_filter [of name_value
      "filter (\<lambda>node. kind node = OBJECT_TYPE_DEFINITION) (definitions doc)" typename]
  show ?thesis by (simp add: unique_names_def)
qed

lemma object_types_member:
  "node \<in> set (object_types doc typename) \<Longrightarrow>
   node \<in> set (definitions doc) \<and> kind node = OBJECT_TYPE_DEFINITION \<and> name_value node = typename"
  by (simp add: object_types_def)

lemma object_type_found_iff:
  "object_type_found doc typename \<longleftrightarrow> object_types doc typename \<noteq> []"
  by (auto simp: object_type_found_def object_types_def filter_empty_conv)

lemma object_type_field_found_iff:
  "object_type_field_found doc typename fieldName \<longleftrightarrow>
     (\<exists>node \<in> set (object_types doc typename).
        \<exists>fld \<in> set (fields_of node). field_name_value fld = fieldName)"
  by (auto simp: object_type_field_found_def object_types_def)

lemma object_type_defines_non_null_iff:
  "object_type_defines_non_null doc typename fieldName \<longleftrightarrow>
     (\<exists>node \<in> set (object_types doc typename).
        \<exists>fld \<in> set (fields_of node).
          field_name_value fld = fieldName \<and> field_type_kind fld = NON_NULL_TYPE)"
  by (auto simp: object_type_defines_non_null_def object_types_def)

lemma object_type_defines_non_null_defines:
  "object_type_defines_non_null doc typename fieldName \<Longrightarrow> defines_non_null doc typename fieldName"
  by (auto simp: object_type_defines_non_null_def defines_non_null_def)

lemma isFieldNullable_unique:
  assumes "schema sp = Some doc" and "unique_names doc"
  shows "\<not> isFieldNullable sp typename fieldName \<longleftrightarrow> object_type_defines_non_null doc typename fieldName"
proof -
  from object_types_unique [OF assms(2), of typename]
  consider "object_types doc typename = []" | node where "object_types doc typename = [node]"
    by blast
  then show ?thesis
  proof cases
    case 1
    with assms(1) show ?thesis
      by (simp add: isFieldNullable_first object_type_defines_non_null_iff)
  next
    case 2
    then have "node \<in> set (object_types doc typename)" by simp
    then have "node \<in> set (definitions doc)" "kind node = OBJECT_TYPE_DEFINITION"
      using object_types_member by blast+
    with assms(2) have "distinct (map field_name_value (fields_of node))"
      by (auto simp: unique_names_def)
    from distinct_map_filter [OF this, of fieldName]
    consider "filter (\<lambda>fld. field_name_value fld = fieldName) (fields_of node) = []"
      | fld where "filter (\<lambda>fld. field_name_value fld = fieldName) (fields_of node) = [fld]"
      by blast
    then show ?thesis
    proof cases
      case 1
      then have "\<forall>fld\<in>set (fields_of node). field_name_value fld \<noteq> fieldName"
        by (simp add: filter_empty_conv)
      with 1 2 assms(1) show ?thesis
        by (auto simp: isFieldNullable_first object_type_defines_non_null_iff)
    next
      case (2 fld)
      have mem: "\<And>x. x \<in> set (fields_of node) \<and> field_name_value x = fieldName \<longleftrightarrow> x = fld"
      proof -
        fix x
        have "x \<in> set (filter (\<lambda>fld. field_name_value fld = fieldName) (fields_of node)) \<longleftrightarrow> x = fld"
          unfolding 2 by simp
        then show "x \<in> set (fields_of node) \<and> field_name_value x = fieldName \<longleftrightarrow> x = fld"
          by simp
      qed
      have "(\<exists>x\<in>set (fields_of node).
               field_name_value x = fieldName \<and> field_type_kind x = NON_NULL_TYPE) \<longleftrightarrow>
            field_type_kind fld = NON_NULL_TYPE"
      proof
        assume "\<exists>x\<in>set (fields_of node).
            field_name_value x = fieldName \<and> field_type_kind x = NON_NULL_TYPE"
        then obtain x where "x \<in> set (fields_of node)" "field_name_value x = fieldName"
          "field_type_kind x = NON_NULL_TYPE" by blast
        with mem [of x] show "field_type_kind fld = NON_NULL_TYPE" by simp
      next
        assume "field_type_kind fld = NON_NULL_TYPE"
        with mem [of fld] show "\<exists>x\<in>set (fields_of node).
            field_name_value x = fieldName \<and> field_type_kind x = NON_NULL_TYPE"
          by auto
      qed
      then have "object_type_defines_non_null doc typename fieldName \<longleftrightarrow> field_type_kind fld = NON_NULL_TYPE"
        unfolding object_type_defines_non_null_iff \<open>object_types doc typename = [node]\<close> by simp
      with 2 \<open>object_types doc typename = [node]\<close> assms(1) show ?thesis
        by (simp add: isFieldNullable_first)
    qed
  qed
qed

lemma isFieldNullable_not_found:
  assumes "schema sp = Some doc"
    and "\<not> object_type_found doc typename \<or> \<not> object_type_field_found doc typename fieldName"
  shows "isFieldNullable sp typename fieldName"
proof (cases "object_types doc typename")
  case Nil
  with assms(1) show ?thesis by (simp add: isFieldNullable_first)
next
  case (Cons node rest)
  with assms(2) have "\<not> object_type_field_found doc typename fieldName"
    by (simp add: object_type_found_iff)
  with Cons have "\<forall>fld\<in>set (fields_of node). field_name_value fld \<noteq> fieldName"
    by (auto simp: object_type_field_found_iff)
  then have "filter (\<lambda>fld. field_name_value fld = fieldName) (fields_of node) = []"
    by (simp add: filter_empty_conv)
  with Cons assms(1) show ?thesis by (simp add: isFieldNullable_first)
qed

lemma new_SchemaPredicates_no_schema:
  "new_SchemaPredicates parseSchema None = Inr sp \<Longrightarrow> schema sp = None"
  by (auto simp: new_SchemaPredicates_def)

lemma new_SchemaPredicates_schema:
  "new_SchemaPredicates parseSchema (Some sch) = Inr sp \<Longrightarrow>
   \<exists>doc. parseSchema sch = Inr doc \<and> schema sp = Some doc"
  by (auto simp: new_SchemaPredicates_def split: sum.splits)

text \<open>
  Claim C8, as amended. The constructor leaves \<open>schema\<close> unset exactly when it is given no
  schema. \<open>isFieldNullable\<close> returns true when \<open>schema\<close> is unset. With a schema document (in
  which object type names and the field names of each object type are unique), it returns
  false exactly when the document defines an object type named \<open>typename\<close> with a field
  \<open>fieldName\<close> whose type is a non-null type. It returns true whenever the document defines no
  object type named \<open>typename\<close>, or none with a field \<open>fieldName\<close>. \<open>isFieldNullable\<close> has no
  failing path.
\<close>

theorem isFieldNullable_spec:
  "(\<forall>sp0. new_SchemaPredicates parseSchema None = Inr sp0 \<longrightarrow> schema sp0 = None) \<and>
   (\<forall>sch sp1. new_SchemaPredicates parseSchema (Some sch) = Inr sp1 \<longrightarrow>
      (\<exists>doc. parseSchema sch = Inr doc \<and> schema sp1 = Some doc)) \<and>
   (schema sp = None \<longrightarrow> isFieldNullable sp typename fieldName) \<and>
   (\<forall>doc. schema sp = Some doc \<longrightarrow> unique_names doc \<longrightarrow>
      (\<not> isFieldNullable sp typename fieldName \<longleftrightarrow> object_type_defines_non_null doc typename fieldName)) \<and>
   (\<forall>doc. schema sp = Some doc \<longrightarrow>
      \<not> object_type_found doc typename \<or> \<not> object_type_field_found doc typename fieldName \<longrightarrow>
      isFieldNullable sp typename fieldName)"
proof (intro conjI allI impI)
  fix sp0
  assume "new_SchemaPredicates parseSchema None = Inr sp0"
  then show "schema sp0 = None" by (rule new_SchemaPredicates_no_schema)
next
  fix sch sp1
  assume "new_SchemaPredicates parseSchema (Some sch) = Inr sp1"
  then show "\<exists>doc. parseSchema sch = Inr doc \<and> schema sp1 = Some doc"
    by (rule new_SchemaPredicates_schema)
next
  assume "schema sp = None"
  then show "isFieldNullable sp typename fieldName"
    by (simp add: isFieldNullable_def)
next
  fix doc
  assume "schema sp = Some doc" "unique_names doc"
  then show "\<not> isFieldNullable sp typename fieldName \<longleftrightarrow> object_type_defines_non_null doc typename fieldName"
    by (rule isFieldNullable_unique)
next
  fix doc
  assume "schema sp = Some doc"
    "\<not> object_type_found doc typename \<or> \<not> object_type_field_found doc typename fieldName"
  then show "isFieldNullable sp typename fieldName"
    by (rule isFieldNullable_not_found)
qed

lemmas schema_eval = unique_names_def defines_non_null_def object_type_defines_non_null_def
  object_type_found_def object_type_field_found_def fields_of_def OBJECT_TYPE_DEFINITION_def INTERFACE_TYPE_DEFINITION_def
  NON_NULL_TYPE_def

theorem isFieldNullable_spec_witness:
  "unique_names (\<lparr>definitions =
      [\<lparr>kind = INTERFACE_TYPE_DEFINITION, name_value = ''Node'',
        node_fields = Some [\<lparr>field_name_value = ''id'', field_type_kind = NON_NULL_TYPE\<rparr>]\<rparr>,
       \<lparr>kind = OBJECT_TYPE_DEFINITION, name_value = ''Todo'',
        node_fields = Some [\<lparr>field_name_value = ''id'', field_type_kind = NON_NULL_TYPE\<rparr>,
                            \<lparr>field_name_value = ''text'', field_type_kind = ''NamedType''\<rparr>]\<rparr>]\<rparr>) \<and>
   object_type_defines_non_null (\<lparr>definitions =
      [\<lparr>kind = INTERFACE_TYPE_DEFINITION, name_value = ''Node'',
        node_fields = Some [\<lparr>field_name_value = ''id'', field_type_kind = NON_NULL_TYPE\<rparr>]\<rparr>,
       \<lparr>kind = OBJECT_TYPE_DEFINITION, name_value = ''Todo'',
        node_fields = Some [\<lparr>field_name_value = ''id'', field_type_kind = NON_NULL_TYPE\<rparr>,
                            \<lparr>field_name_value = ''text'', field_type_kind = ''NamedType''\<rparr>]\<rparr>]\<rparr>) ''Todo'' ''id'' \<and>
   \<not> isFieldNullable (\<lparr>schema = Some (\<lparr>definitions =
      [\<lparr>kind = INTERFACE_TYPE_DEFINITION, name_value = ''Node'',
        node_fields = Some [\<lparr>field_name_value = ''id'', field_type_kind = NON_NULL_TYPE\<rparr>]\<rparr>,
       \<lparr>kind = OBJECT_TYPE_DEFINITION, name_value = ''Todo'',
        node_fields = Some [\<lparr>field_name_value = ''id'', field_type_kind = NON_NULL_TYPE\<rparr>,
                            \<lparr>field_name_value = ''text'', field_type_kind = ''NamedType''\<rparr>]\<rparr>]\<rparr>),
     fragTypes = Some Map.empty,
     rootFields = \<lparr>query = Some ''Query'', mutation = None, subscription = None\<rparr>\<rparr>) ''Todo'' ''id'' \<and>
   isFieldNullable (\<lparr>schema = Some (\<lparr>definitions =
      [\<lparr>kind = INTERFACE_TYPE_DEFINITION, name_value = ''Node'',
        node_fields = Some [\<lparr>field_name_value = ''id'', field_type_kind = NON_NULL_TYPE\<rparr>]\<rparr>,
       \<lparr>kind = OBJECT_TYPE_DEFINITION, name_value = ''Todo'',
        node_fields = Some [\<lparr>field_name_value = ''id'', field_type_kind = NON_NULL_TYPE\<rparr>,
                            \<lparr>field_name_value = ''text'', field_type_kind = ''NamedType''\<rparr>]\<rparr>]\<rparr>),
     fragTypes = Some Map.empty,
     rootFields = \<lparr>query = Some ''Query'', mutation = None, subscription = None\<rparr>\<rparr>) ''Todo'' ''text'' \<and>
   isFieldNullable (\<lparr>schema = Some (\<lparr>definitions =
      [\<lparr>kind = INTERFACE_TYPE_DEFINITION, name_value = ''Node'',
        node_fields = Some [\<lparr>field_name_value = ''id'', field_type_kind = NON_NULL_TYPE\<rparr>]\<rparr>,
       \<lparr>kind = OBJECT_TYPE_DEFINITION, name_value = ''Todo'',
        node_fields = Some [\<lparr>field_name_value = ''id'', field_type_kind = NON_NULL_TYPE\<rparr>,
                            \<lparr>field_name_value = ''text'', field_type_kind = ''NamedType''\<rparr>]\<rparr>]\<rparr>),
     fragTypes = Some Map.empty,
     rootFields = \<lparr>query = Some ''Query'', mutation = None, subscription = None\<rparr>\<rparr>) ''Ghost'' ''id'' \<and>
   isFieldNullable (\<lparr>schema = None, fragTypes = None,
     rootFields = \<lparr>query = Some ''Query'', mutation = Some ''Mutation'',
                   subscription = Some ''Subscription''\<rparr>\<rparr>) ''Todo'' ''id'' \<and>
   new_SchemaPredicates (\<lambda>sch. Inl TypeError) None = Inr (\<lparr>schema = None, fragTypes = None,
     rootFields = \<lparr>query = Some ''Query'', mutation = Some ''Mutation'',
                   subscription = Some ''Subscription''\<rparr>\<rparr>)"
proof -
  let ?doc = "\<lparr>definitions =
      [\<lparr>kind = INTERFACE_TYPE_DEFINITION, name_value = ''Node'',
        node_fields = Some [\<lparr>field_name_value = ''id'', field_type_kind = NON_NULL_TYPE\<rparr>]\<rparr>,
       \<lparr>kind = OBJECT_TYPE_DEFINITION, name_value = ''Todo'',
        node_fields = Some [\<lparr>field_name_value = ''id'', field_type_kind = NON_NULL_TYPE\<rparr>,
                            \<lparr>field_name_value = ''text'', field_type_kind = ''NamedType''\<rparr>]\<rparr>]\<rparr>"
  let ?sp = "\<lparr>schema = Some ?doc, fragTypes = Some Map.empty,
     rootFields = \<lparr>query = Some ''Query'', mutation = None, subscription = None\<rparr>\<rparr>"
  have sch: "schema ?sp = Some ?doc" by simp
  have u: "unique_names ?doc" by (simp add: schema_eval)
  have d: "object_type_defines_non_null ?doc ''Todo'' ''id''"
    by (simp add: object_type_defines_non_null_iff object_types_def fields_of_def
      OBJECT_TYPE_DEFINITION_def INTERFACE_TYPE_DEFINITION_def NON_NULL_TYPE_def)
  have n: "\<not> object_type_defines_non_null ?doc ''Todo'' ''text''"
    by (simp add: object_type_defines_non_null_iff object_types_def fields_of_def
      OBJECT_TYPE_DEFINITION_def INTERFACE_TYPE_DEFINITION_def NON_NULL_TYPE_def)
  have g: "\<not> object_type_found ?doc ''Ghost'' \<or> \<not> object_type_field_found ?doc ''Ghost'' ''id''"
    by (simp add: schema_eval)
  from isFieldNullable_spec [of _ ?sp "''Todo''" "''id''", THEN conjunct2, THEN conjunct2,
      THEN conjunct2, THEN conjunct1, THEN spec,
      THEN mp, OF sch, THEN mp, OF u] d
  have r1: "\<not> isFieldNullable ?sp ''Todo'' ''id''" by simp
  from isFieldNullable_spec [of _ ?sp "''Todo''" "''text''", THEN conjunct2, THEN conjunct2,
      THEN conjunct2, THEN conjunct1, THEN spec,
      THEN mp, OF sch, THEN mp, OF u] n
  have r2: "isFieldNullable ?sp ''Todo'' ''text''" by simp
  from isFieldNullable_spec [of _ ?sp "''Ghost''" "''id''", THEN conjunct2, THEN conjunct2,
      THEN conjunct2, THEN conjunct2, THEN spec,
      THEN mp, OF sch, THEN mp, OF g]
  have r3: "isFieldNullable ?sp ''Ghost'' ''id''" .
  have none: "schema (\<lparr>schema = None, fragTypes = None,
     rootFields = \<lparr>query = Some ''Query'', mutation = Some ''Mutation'',
                   subscription = Some ''Subscription''\<rparr>\<rparr>) = None" by simp
  from isFieldNullable_spec [of _ "\<lparr>schema = None, fragTypes = None,
     rootFields = \<lparr>query = Some ''Query'', mutation = Some ''Mutation'',
                   subscription = Some ''Subscription''\<rparr>\<rparr>" "''Todo''" "''id''",
      THEN conjunct2, THEN conjunct2, THEN conjunct1, THEN mp, OF none]
  have r4: "isFieldNullable (\<lparr>schema = None, fragTypes = None,
     rootFields = \<lparr>query = Some ''Query'', mutation = Some ''Mutation'',
                   subscription = Some ''Subscription''\<rparr>\<rparr>) ''Todo'' ''id''" .
  have made: "new_SchemaPredicates (\<lambda>sch. Inl TypeError) None = Inr (\<lparr>schema = None, fragTypes = None,
     rootFields = \<lparr>query = Some ''Query'', mutation = Some ''Mutation'',
                   subscription = Some ''Subscription''\<rparr>\<rparr>)"
    by (simp add: new_SchemaPredicates_def)
  from u d r1 r2 r3 r4 made show ?thesis by blast
qed

text \<open>
  The schema \<open>interface Node { id: ID! }  type Todo implements Node { id: ID! text: String }\<close>
  defines \<open>Node\<close> with \<open>id\<close> as a non-null type, and \<open>isFieldNullable('Node', 'id')\<close> returns
  true: the search accepts object type definitions only.
\<close>

theorem isFieldNullable_interface_counterexample:
  "defines_non_null (\<lparr>definitions =
      [\<lparr>kind = INTERFACE_TYPE_DEFINITION, name_value = ''Node'',
        node_fields = Some [\<lparr>field_name_value = ''id'', field_type_kind = NON_NULL_TYPE\<rparr>]\<rparr>,
       \<lparr>kind = OBJECT_TYPE_DEFINITION, name_value = ''Todo'',
        node_fields = Some [\<lparr>field_name_value = ''id'', field_type_kind = NON_NULL_TYPE\<rparr>,
                            \<lparr>field_name_value = ''text'', field_type_kind = ''NamedType''\<rparr>]\<rparr>]\<rparr>) ''Node'' ''id'' \<and>
   isFieldNullable
     \<lparr>schema = Some (\<lparr>definitions =
      [\<lparr>kind = INTERFACE_TYPE_DEFINITION, name_value = ''Node'',
        node_fields = Some [\<lparr>field_name_value = ''id'', field_type_kind = NON_NULL_TYPE\<rparr>]\<rparr>,
       \<lparr>kind = OBJECT_TYPE_DEFINITION, name_value = ''Todo'',
        node_fields = Some [\<lparr>field_name_value = ''id'', field_type_kind = NON_NULL_TYPE\<rparr>,
                            \<lparr>field_name_value = ''text'', field_type_kind = ''NamedType''\<rparr>]\<rparr>]\<rparr>),
      fragTypes = Some [''Node'' \<mapsto> [''Todo'']],
      rootFields = \<lparr>query = Some ''Query'', mutation = None, subscription = None\<rparr>\<rparr>
     ''Node'' ''id''"
  by (simp add: isFieldNullable_def schema_eval)

end
